theory Spec2Isabelle
  imports Main "HOL-Library.Sublist"
begin

section \<open>JavaScript strings and the regular expressions of the extension\<close>

text \<open>
  A JavaScript string is a sequence of UTF-16 code units. A code unit is modelled by its
  numeric value; no arithmetic is done on code units, so every value is kept as a
  natural number. \<open>str\<close> embeds an ASCII literal.
\<close>

type_synonym cu = nat
type_synonym jsstr = "cu list"

definition str :: "string \<Rightarrow> jsstr" where
  "str s = map of_char s"

text \<open>The ECMAScript production LineTerminator: LF, CR, LS, PS.\<close>

definition is_lt :: "cu \<Rightarrow> bool" where
  "is_lt c \<longleftrightarrow> c = 0x0A \<or> c = 0x0D \<or> c = 0x2028 \<or> c = 0x2029"

text \<open>
  The class \<open>\s\<close>, which is also what \<open>String.prototype.trim\<close> removes: WhiteSpace
  and LineTerminator.
\<close>

definition is_space :: "cu \<Rightarrow> bool" where
  "is_space c \<longleftrightarrow>
     c = 0x09 \<or> c = 0x0B \<or> c = 0x0C \<or> c = 0x20 \<or> c = 0xA0 \<or> c = 0x1680 \<or>
     (0x2000 \<le> c \<and> c \<le> 0x200A) \<or> c = 0x202F \<or> c = 0x205F \<or> c = 0x3000 \<or>
     c = 0xFEFF \<or> is_lt c"

text \<open>The class \<open>\d\<close>.\<close>

definition is_digit :: "cu \<Rightarrow> bool" where
  "is_digit c \<longleftrightarrow> 0x30 \<le> c \<and> c \<le> 0x39"

text \<open>The class \<open>.\<close> (without the \<open>s\<close> flag): everything but a line terminator.\<close>

definition is_dot :: "cu \<Rightarrow> bool" where
  "is_dot c \<longleftrightarrow> \<not> is_lt c"

text \<open>
  Case folding of the \<open>i\<close> flag (without \<open>u\<close>): Canonicalize maps a code unit to its
  upper case, and never maps a code unit from 128 on to one below 128. The patterns of
  the extension hold ASCII only, so for the comparison with a pattern character only the
  folding of the ASCII letters matters.
\<close>

definition canonicalize :: "cu \<Rightarrow> cu" where
  "canonicalize c = (if 0x61 \<le> c \<and> c \<le> 0x7A then c - 0x20 else c)"

definition ci :: "cu \<Rightarrow> cu \<Rightarrow> bool" where
  "ci a c \<longleftrightarrow> canonicalize c = canonicalize a"

subsection \<open>A backtracking matcher for the constructs the source uses\<close>

text \<open>
  The regular expressions of the source quantify character classes only, and look ahead
  for a single class only. The matcher follows the ECMAScript semantics: a pattern is
  run against a position with a continuation, alternatives are tried in order, a greedy
  quantifier tries the longest repetition first and a lazy one the shortest.

  A position is the code unit before it (none at index 0) and the input from it on.
\<close>

datatype regex =
    Class "cu \<Rightarrow> bool"
  | Seq regex regex
  | Alt regex regex
  | Star "cu \<Rightarrow> bool"
  | Plus "cu \<Rightarrow> bool"
  | Star_lazy "cu \<Rightarrow> bool"
  | Input_start
  | Line_start
  | Line_end
  | Lookahead "cu \<Rightarrow> bool"
  | Empty

type_synonym pos = "cu option \<times> jsstr"

fun star_greedy :: "(cu \<Rightarrow> bool) \<Rightarrow> (pos \<Rightarrow> pos option) \<Rightarrow> pos \<Rightarrow> pos option" where
  "star_greedy p k (prev, []) = k (prev, [])"
| "star_greedy p k (prev, c # cs) =
     (if p c
      then (case star_greedy p k (Some c, cs) of
              Some r \<Rightarrow> Some r
            | None \<Rightarrow> k (prev, c # cs))
      else k (prev, c # cs))"

fun star_lazy :: "(cu \<Rightarrow> bool) \<Rightarrow> (pos \<Rightarrow> pos option) \<Rightarrow> pos \<Rightarrow> pos option" where
  "star_lazy p k (prev, []) = k (prev, [])"
| "star_lazy p k (prev, c # cs) =
     (case k (prev, c # cs) of
        Some r \<Rightarrow> Some r
      | None \<Rightarrow> if p c then star_lazy p k (Some c, cs) else None)"

fun one_of :: "(cu \<Rightarrow> bool) \<Rightarrow> (pos \<Rightarrow> pos option) \<Rightarrow> pos \<Rightarrow> pos option" where
  "one_of p k (prev, []) = None"
| "one_of p k (prev, c # cs) = (if p c then k (Some c, cs) else None)"

fun at_line_start :: "pos \<Rightarrow> bool" where
  "at_line_start (None, s) = True"
| "at_line_start (Some c, s) = is_lt c"

fun at_line_end :: "pos \<Rightarrow> bool" where
  "at_line_end (prev, []) = True"
| "at_line_end (prev, c # cs) = is_lt c"

fun next_is :: "(cu \<Rightarrow> bool) \<Rightarrow> pos \<Rightarrow> bool" where
  "next_is p (prev, []) = False"
| "next_is p (prev, c # cs) = p c"

primrec rmatch :: "regex \<Rightarrow> (pos \<Rightarrow> pos option) \<Rightarrow> pos \<Rightarrow> pos option" where
  "rmatch (Class p) k = one_of p k"
| "rmatch (Seq a b) k = rmatch a (rmatch b k)"
| "rmatch (Alt a b) k =
     (\<lambda>x. case rmatch a k x of Some r \<Rightarrow> Some r | None \<Rightarrow> rmatch b k x)"
| "rmatch (Star p) k = star_greedy p k"
| "rmatch (Plus p) k = one_of p (star_greedy p k)"
| "rmatch (Star_lazy p) k = star_lazy p k"
| "rmatch Input_start k = (\<lambda>x. if fst x = None then k x else None)"
| "rmatch Line_start k = (\<lambda>x. if at_line_start x then k x else None)"
| "rmatch Line_end k = (\<lambda>x. if at_line_end x then k x else None)"
| "rmatch (Lookahead p) k = (\<lambda>x. if next_is p x then k x else None)"
| "rmatch Empty k = k"

text \<open>One attempt at a position: the position where the match ends, if there is one.\<close>

definition match_at :: "regex \<Rightarrow> pos \<Rightarrow> pos option" where
  "match_at r x = rmatch r Some x"

text \<open>
  \<open>RegExpBuiltinExec\<close> from a position on: the start positions are tried from left to
  right. The result is the text skipped before the match, the matched text, and the
  position where the match ends.
\<close>

fun exec :: "regex \<Rightarrow> cu option \<Rightarrow> jsstr \<Rightarrow> (jsstr \<times> jsstr \<times> pos) option" where
  "exec r prev [] =
     (case match_at r (prev, []) of
        Some e \<Rightarrow> Some ([], [], e)
      | None \<Rightarrow> None)"
| "exec r prev (c # cs) =
     (case match_at r (prev, c # cs) of
        Some e \<Rightarrow> Some ([], take (length (c # cs) - length (snd e)) (c # cs), e)
      | None \<Rightarrow>
          (case exec r (Some c) cs of
             Some (skipped, m, e) \<Rightarrow> Some (c # skipped, m, e)
           | None \<Rightarrow> None))"

text \<open>A match never ends before it starts: the end position is a suffix of the input.\<close>

lemma star_greedy_suffix:
  "(\<And>x y. k x = Some y \<Longrightarrow> suffix (snd y) (snd x)) \<Longrightarrow>
   star_greedy p k x = Some y \<Longrightarrow> suffix (snd y) (snd x)"
proof (induction p k x rule: star_greedy.induct)
  case (1 p k prev)
  then have "k (prev, []) = Some y" by simp
  from "1.prems"(1) [OF this] show ?case .
next
  case (2 p k prev c cs)
  note kk = "2.prems"(1)
  show ?case
  proof (cases "p c \<and> star_greedy p k (Some c, cs) \<noteq> None")
    case False
    with "2.prems"(2) have "k (prev, c # cs) = Some y"
      by (cases "star_greedy p k (Some c, cs)") (auto split: if_splits)
    from kk [OF this] show ?thesis .
  next
    case True
    with "2.prems"(2) have "star_greedy p k (Some c, cs) = Some y" by auto
    with True "2.IH" kk have "suffix (snd y) (snd (Some c, cs))" by blast
    then show ?thesis by (simp add: suffix_Cons)
  qed
qed

lemma star_lazy_suffix:
  "(\<And>x y. k x = Some y \<Longrightarrow> suffix (snd y) (snd x)) \<Longrightarrow>
   star_lazy p k x = Some y \<Longrightarrow> suffix (snd y) (snd x)"
proof (induction p k x rule: star_lazy.induct)
  case (1 p k prev)
  then have "k (prev, []) = Some y" by simp
  from "1.prems"(1) [OF this] show ?case .
next
  case (2 p k prev c cs)
  note kk = "2.prems"(1)
  show ?case
  proof (cases "k (prev, c # cs)")
    case (Some r)
    with "2.prems"(2) have "k (prev, c # cs) = Some y" by simp
    from kk [OF this] show ?thesis .
  next
    case None
    with "2.prems"(2) have pc: "p c" and "star_lazy p k (Some c, cs) = Some y"
      by (auto split: if_splits)
    with None "2.IH" kk have "suffix (snd y) (snd (Some c, cs))" by blast
    then show ?thesis by (simp add: suffix_Cons)
  qed
qed

lemma one_of_suffix:
  assumes k: "\<And>x y. k x = Some y \<Longrightarrow> suffix (snd y) (snd x)"
    and m: "one_of p k x = Some y"
  shows "suffix (snd y) (snd x)"
proof (cases x)
  case (Pair prev s)
  show ?thesis
  proof (cases s)
    case Nil
    with Pair m show ?thesis by simp
  next
    case (Cons c cs)
    with Pair m have "k (Some c, cs) = Some y" by (auto split: if_splits)
    from k [OF this] have "suffix (snd y) cs" by simp
    with Pair Cons show ?thesis by (simp add: suffix_Cons)
  qed
qed

lemma rmatch_suffix:
  "(\<And>x y. k x = Some y \<Longrightarrow> suffix (snd y) (snd x)) \<Longrightarrow>
   rmatch r k x = Some y \<Longrightarrow> suffix (snd y) (snd x)"
proof (induction r arbitrary: k x y)
  case (Class p)
  from Class.prems(2) have "one_of p k x = Some y" by simp
  with Class.prems(1) show ?case by (rule one_of_suffix)
next
  case (Seq a b)
  have "\<And>x y. rmatch b k x = Some y \<Longrightarrow> suffix (snd y) (snd x)"
    using Seq.IH(2) Seq.prems(1) by blast
  then show ?case using Seq.IH(1) [of "rmatch b k" x y] Seq.prems(2) by simp
next
  case (Alt a b)
  show ?case
  proof (cases "rmatch a k x")
    case None
    with Alt.prems(2) have "rmatch b k x = Some y" by simp
    with Alt.IH(2) Alt.prems(1) show ?thesis by blast
  next
    case (Some r)
    with Alt.prems(2) have "rmatch a k x = Some y" by simp
    with Alt.IH(1) Alt.prems(1) show ?thesis by blast
  qed
next
  case (Star p)
  from Star.prems(2) have "star_greedy p k x = Some y" by simp
  with Star.prems(1) show ?case by (rule star_greedy_suffix)
next
  case (Plus p)
  have "\<And>x y. star_greedy p k x = Some y \<Longrightarrow> suffix (snd y) (snd x)"
    using star_greedy_suffix Plus.prems(1) by blast
  moreover from Plus.prems(2) have "one_of p (star_greedy p k) x = Some y" by simp
  ultimately show ?case by (rule one_of_suffix)
next
  case (Star_lazy p)
  from Star_lazy.prems(2) have "star_lazy p k x = Some y" by simp
  with Star_lazy.prems(1) show ?case by (rule star_lazy_suffix)
next
  case Input_start
  then show ?case by (simp split: if_splits)
next
  case Line_start
  then show ?case by (simp split: if_splits)
next
  case Line_end
  then show ?case by (simp split: if_splits)
next
  case (Lookahead p)
  then show ?case by (simp split: if_splits)
next
  case Empty
  then show ?case by simp
qed

lemma match_at_suffix: "match_at r x = Some y \<Longrightarrow> suffix (snd y) (snd x)"
  unfolding match_at_def by (rule rmatch_suffix [of Some]) auto

lemma exec_decomp: "exec r prev s = Some (skipped, m, e) \<Longrightarrow> s = skipped @ m @ snd e"
proof (induction s arbitrary: prev skipped)
  case Nil
  then have "match_at r (prev, []) = Some e" and "skipped = []" and "m = []"
    by (auto split: option.splits)
  then show ?case using match_at_suffix [of r "(prev, [])" e] by simp
next
  case (Cons c cs)
  show ?case
  proof (cases "match_at r (prev, c # cs)")
    case (Some e')
    with Cons.prems have e: "e' = e" "skipped = []"
      and m: "m = take (length (c # cs) - length (snd e)) (c # cs)" by auto
    from Some e have "suffix (snd e) (c # cs)" using match_at_suffix by fastforce
    then obtain u where u: "c # cs = u @ snd e" by (auto simp: suffix_def)
    then have "length (c # cs) - length (snd e) = length u"
      by (metis add_diff_cancel_right' length_append)
    with m u have "m = u" by (metis append_eq_conv_conj)
    with u e show ?thesis by simp
  next
    case None
    with Cons.prems obtain sk where "exec r (Some c) cs = Some (sk, m, e)" "skipped = c # sk"
      by (auto split: option.splits)
    with Cons.IH show ?thesis by auto
  qed
qed

text \<open>
  \<open>String.prototype.match\<close> with a global regular expression: the matched texts from left
  to right. After an empty match the search resumes one code unit further.
\<close>

function match_all :: "regex \<Rightarrow> cu option \<Rightarrow> jsstr \<Rightarrow> jsstr list" where
  "match_all r prev s =
     (case exec r prev s of
        None \<Rightarrow> []
      | Some (skipped, m, e) \<Rightarrow>
          if m = []
          then (case snd e of [] \<Rightarrow> [m] | c # cs \<Rightarrow> m # match_all r (Some c) cs)
          else m # match_all r (fst e) (snd e))"
  by pat_completeness auto
termination
proof (relation "measure (\<lambda>(r, prev, s). length s)", goal_cases)
  case 1
  show ?case by simp
next
  case (2 r prev s x2 skipped y m e c cs)
  then have "s = skipped @ m @ snd e" using exec_decomp by metis
  with 2 show ?case by simp
next
  case (3 r prev s x2 skipped y m e)
  then have "s = skipped @ m @ snd e" using exec_decomp by metis
  with 3 show ?case by (cases e) auto
qed

declare match_all.simps [simp del]

text \<open>
  \<open>String.prototype.replace\<close> with a global regular expression and the empty
  replacement: every match is cut out, the text between the matches is kept.
\<close>

function replace_all :: "regex \<Rightarrow> cu option \<Rightarrow> jsstr \<Rightarrow> jsstr" where
  "replace_all r prev s =
     (case exec r prev s of
        None \<Rightarrow> s
      | Some (skipped, m, e) \<Rightarrow>
          skipped @
          (if m = []
           then (case snd e of [] \<Rightarrow> [] | c # cs \<Rightarrow> c # replace_all r (Some c) cs)
           else replace_all r (fst e) (snd e)))"
  by pat_completeness auto
termination
proof (relation "measure (\<lambda>(r, prev, s). length s)", goal_cases)
  case 1
  show ?case by simp
next
  case (2 r prev s x2 skipped y m e c cs)
  then have "s = skipped @ m @ snd e" using exec_decomp by metis
  with 2 show ?case by simp
next
  case (3 r prev s x2 skipped y m e)
  then have "s = skipped @ m @ snd e" using exec_decomp by metis
  with 3 show ?case by (cases e) auto
qed

declare replace_all.simps [simp del]

text \<open>
  \<open>String.prototype.replace\<close> with a regular expression without the \<open>g\<close> flag and the
  empty replacement: the first match only is cut out.
\<close>

definition replace_first :: "regex \<Rightarrow> jsstr \<Rightarrow> jsstr" where
  "replace_first r s =
     (case exec r None s of
        None \<Rightarrow> s
      | Some (skipped, m, e) \<Rightarrow> skipped @ snd e)"

text \<open>\<open>String.prototype.trim\<close>.\<close>

definition trim :: "jsstr \<Rightarrow> jsstr" where
  "trim s = rev (dropWhile is_space (rev (dropWhile is_space s)))"

subsection \<open>The bullet extractor\<close>

text \<open>A literal text under the \<open>i\<close> flag.\<close>

fun literal_ci :: "jsstr \<Rightarrow> regex" where
  "literal_ci [] = Empty"
| "literal_ci (c # cs) = Seq (Class (ci c)) (literal_ci cs)"

definition open_tag :: jsstr where
  "open_tag = str ''<think>''"

definition close_tag :: jsstr where
  "close_tag = str ''</think>''"

text \<open>\<^verbatim>\<open>/<think>[\s\S]*?<\/think>/gi\<close>\<close>

definition think_re :: regex where
  "think_re =
     Seq (literal_ci open_tag)
       (Seq (Star_lazy (\<lambda>c. is_space c \<or> \<not> is_space c)) (literal_ci close_tag))"

text \<open>\<^verbatim>\<open>(?:\d+\.(?:\s+|(?=\S))|-\s+)\<close>\<close>

definition marker :: regex where
  "marker =
     Alt (Seq (Plus is_digit)
           (Seq (Class (\<lambda>c. c = 0x2E))
              (Alt (Plus is_space) (Lookahead (\<lambda>c. \<not> is_space c)))))
         (Seq (Class (\<lambda>c. c = 0x2D)) (Plus is_space))"

text \<open>\<^verbatim>\<open>/^(?:\d+\.(?:\s+|(?=\S))|-\s+)(.*)$/gm\<close>\<close>

definition bullet_re :: regex where
  "bullet_re = Seq Line_start (Seq marker (Seq (Star is_dot) Line_end))"

text \<open>\<^verbatim>\<open>/^(?:\d+\.(?:\s+|(?=\S))|-\s+)/\<close>, without the \<open>m\<close> flag.\<close>

definition marker_re :: regex where
  "marker_re = Seq Input_start marker"

definition remove_think :: "jsstr \<Rightarrow> jsstr" where
  "remove_think text = replace_all think_re None text"

definition scan_bullets :: "jsstr \<Rightarrow> jsstr list" where
  "scan_bullets cleanedText =
     map (\<lambda>line. trim (replace_first marker_re line)) (match_all bullet_re None cleanedText)"

definition extractBulletPoints :: "jsstr \<Rightarrow> jsstr list" where
  "extractBulletPoints text = scan_bullets (remove_think text)"

section \<open>Evaluating the extractor\<close>

lemmas char_class_defs = is_lt_def is_space_def is_digit_def is_dot_def ci_def canonicalize_def

lemmas extract_eval =
  extractBulletPoints_def scan_bullets_def remove_think_def str_def match_all.simps
  replace_all.simps replace_first_def trim_def think_re_def bullet_re_def marker_re_def
  marker_def open_tag_def close_tag_def match_at_def char_class_defs

text \<open>
  The example of the specification: of the four lines, the three marked ones are kept,
  in order and without their markers.
\<close>

lemma extractBulletPoints_example:
  "extractBulletPoints
     (str ''1. Do X'' @ [0x0A] @ str ''2. Do Y'' @ [0x0A] @ str ''- Do Z'' @ [0x0A] @
      str ''Plain line'')
   = [str ''Do X'', str ''Do Y'', str ''Do Z'']"
  by (simp add: extract_eval)

text \<open>
  C1. The claim: only the lines that begin with a marker are kept, each without its
  marker, and every other line is dropped. The class \<open>\s\<close> of the marker holds the line
  terminators, so the whitespace after a marker that ends its line runs on into the next
  line: for the two lines \<open>- \<close> and \<open>Plain line\<close> the extractor returns the unmarked
  second line, where the claim asks for the empty body of the first line and nothing else.
\<close>

theorem extractBulletPoints_marker_swallows_line_break:
  "extractBulletPoints (str ''- '' @ [0x0A] @ str ''Plain line'') = [str ''Plain line'']"
  by (simp add: extract_eval)

section \<open>Reasoning blocks\<close>

text \<open>
  \<open>ci_prefix pat s\<close>: the text \<open>s\<close> begins with \<open>pat\<close>, letter case aside.
  \<open>find_ci pat s\<close>: the index of the first place in \<open>s\<close> where \<open>pat\<close> begins.
\<close>

fun ci_prefix :: "jsstr \<Rightarrow> jsstr \<Rightarrow> bool" where
  "ci_prefix [] s = True"
| "ci_prefix (p # ps) [] = False"
| "ci_prefix (p # ps) (c # cs) = (ci p c \<and> ci_prefix ps cs)"

fun find_ci :: "jsstr \<Rightarrow> jsstr \<Rightarrow> nat option" where
  "find_ci pat [] = (if pat = [] then Some 0 else None)"
| "find_ci pat (c # cs) =
     (if ci_prefix pat (c # cs) then Some 0 else map_option Suc (find_ci pat cs))"

text \<open>The code unit before the position reached after reading \<open>u\<close>.\<close>

definition lastp :: "cu option \<Rightarrow> jsstr \<Rightarrow> cu option" where
  "lastp prev u = (if u = [] then prev else Some (last u))"

lemma lastp_Nil [simp]: "lastp prev [] = prev"
  by (simp add: lastp_def)

lemma lastp_Cons [simp]: "lastp prev (c # u) = lastp (Some c) u"
  by (simp add: lastp_def)

lemma lastp_append [simp]: "lastp prev (u @ v) = lastp (lastp prev u) v"
  by (simp add: lastp_def)

lemma ci_prefix_append: "length pat \<le> length x \<Longrightarrow> ci_prefix pat (x @ y) = ci_prefix pat x"
  by (induction pat x rule: ci_prefix.induct) auto

lemma ci_prefix_length: "ci_prefix pat s \<Longrightarrow> length pat \<le> length s"
  by (induction pat s rule: ci_prefix.induct) auto

lemma ci_prefix_all2: "list_all2 ci pat x \<Longrightarrow> ci_prefix pat (x @ y)"
  by (induction pat x rule: list_all2_induct) auto

lemma rmatch_literal_ci:
  "rmatch (literal_ci pat) k (prev, s) =
     (if ci_prefix pat s then k (lastp prev (take (length pat) s), drop (length pat) s) else None)"
proof (induction pat arbitrary: prev s)
  case Nil
  show ?case by simp
next
  case (Cons p ps)
  show ?case
  proof (cases s)
    case Nil
    then show ?thesis by simp
  next
    case (Cons c cs)
    with Cons.IH show ?thesis by simp
  qed
qed

lemma star_lazy_skip:
  "(\<And>i. i < length u \<Longrightarrow> k (lastp prev (take i u), drop i u @ v) = None) \<Longrightarrow> (\<And>c. p c) \<Longrightarrow>
   star_lazy p k (prev, u @ v) = star_lazy p k (lastp prev u, v)"
proof (induction u arbitrary: prev)
  case Nil
  show ?case by simp
next
  case (Cons c u)
  from Cons.prems(1) [of 0] have k0: "k (prev, c # u @ v) = None" by simp
  have "\<And>i. i < length u \<Longrightarrow> k (lastp (Some c) (take i u), drop i u @ v) = None"
  proof -
    fix i assume "i < length u"
    then have "Suc i < length (c # u)" by simp
    from Cons.prems(1) [OF this] show "k (lastp (Some c) (take i u), drop i u @ v) = None" by simp
  qed
  with Cons.IH Cons.prems(2) have "star_lazy p k (Some c, u @ v) = star_lazy p k (lastp (Some c) u, v)"
    by blast
  with k0 Cons.prems(2) [of c] show ?case by simp
qed

lemma star_lazy_here: "k x = Some r \<Longrightarrow> star_lazy p k x = Some r"
  by (cases x, cases "snd x") auto

lemma exec_here:
  "match_at r (prev, s) = Some e \<Longrightarrow> exec r prev s = Some ([], take (length s - length (snd e)) s, e)"
  by (cases s) auto

lemma exec_skip:
  "(\<And>i. i < length t \<Longrightarrow> match_at r (lastp prev (take i t), drop i t @ s) = None) \<Longrightarrow>
   exec r prev (t @ s) = map_option (\<lambda>(sk, m, e). (t @ sk, m, e)) (exec r (lastp prev t) s)"
proof (induction t arbitrary: prev)
  case Nil
  show ?case by (simp add: option.map_ident case_prod_unfold)
next
  case (Cons c t)
  from Cons.prems [of 0] have k0: "match_at r (prev, c # t @ s) = None" by simp
  have "\<And>i. i < length t \<Longrightarrow> match_at r (lastp (Some c) (take i t), drop i t @ s) = None"
  proof -
    fix i assume "i < length t"
    then have "Suc i < length (c # t)" by simp
    from Cons.prems [OF this] show "match_at r (lastp (Some c) (take i t), drop i t @ s) = None" by simp
  qed
  with Cons.IH have "exec r (Some c) (t @ s) = map_option (\<lambda>(sk, m, e). (t @ sk, m, e)) (exec r (lastp (Some c) t) s)"
    by blast
  with k0 show ?case by (auto split: option.splits)
qed


lemma find_ci_Some:
  "find_ci pat s = Some n \<Longrightarrow>
     n \<le> length s \<and> ci_prefix pat (drop n s) \<and> (\<forall>i<n. \<not> ci_prefix pat (drop i s))"
proof (induction s arbitrary: n)
  case Nil
  then show ?case by (auto split: if_splits)
next
  case (Cons c cs)
  show ?case
  proof (cases "ci_prefix pat (c # cs)")
    case True
    with Cons.prems show ?thesis by simp
  next
    case False
    with Cons.prems obtain n' where n': "find_ci pat cs = Some n'" "n = Suc n'" by auto
    from Cons.IH [OF n'(1)] have ih: "n' \<le> length cs" "ci_prefix pat (drop n' cs)"
      "\<forall>i<n'. \<not> ci_prefix pat (drop i cs)" by auto
    have "\<not> ci_prefix pat (drop i (c # cs))" if "i < n" for i
      using that False ih(3) n'(2) by (cases i) auto
    with ih n' show ?thesis by simp
  qed
qed

lemma find_ci_first:
  "ci_prefix pat (drop n s) \<Longrightarrow> n \<le> length s \<Longrightarrow> (\<And>i. i < n \<Longrightarrow> \<not> ci_prefix pat (drop i s)) \<Longrightarrow>
   find_ci pat s = Some n"
proof (induction s arbitrary: n)
  case Nil
  then show ?case by (cases pat) auto
next
  case (Cons c cs)
  show ?case
  proof (cases n)
    case 0
    with Cons.prems show ?thesis by simp
  next
    case (Suc n')
    from Cons.prems(3) [of 0] Suc have nc: "\<not> ci_prefix pat (c # cs)" by simp
    have "\<not> ci_prefix pat (drop i cs)" if "i < n'" for i
      using Cons.prems(3) [of "Suc i"] that Suc by simp
    with Cons.IH [of n'] Cons.prems(1,2) Suc have "find_ci pat cs = Some n'" by simp
    with nc Suc show ?thesis by simp
  qed
qed

lemma find_ci_None:
  "find_ci pat s = None \<Longrightarrow> i \<le> length s \<Longrightarrow> \<not> ci_prefix pat (drop i s)"
proof (induction s arbitrary: i)
  case Nil
  then show ?case by (cases pat) (auto split: if_splits)
next
  case (Cons c cs)
  then show ?case by (cases i) (auto split: if_splits)
qed

lemma find_ci_exists:
  "ci_prefix pat (drop i s) \<Longrightarrow> i \<le> length s \<Longrightarrow> \<exists>n\<le>i. find_ci pat s = Some n"
proof (induction s arbitrary: i)
  case Nil
  then show ?case by (cases pat) auto
next
  case (Cons c cs)
  show ?case
  proof (cases "ci_prefix pat (c # cs)")
    case True
    then show ?thesis by simp
  next
    case False
    with Cons.prems obtain i' where i': "i = Suc i'" by (cases i) auto
    with Cons.prems Cons.IH [of i'] obtain n where "n \<le> i'" "find_ci pat cs = Some n" by auto
    with False i' show ?thesis by simp
  qed
qed

definition any_cu :: "cu \<Rightarrow> bool" where
  "any_cu c \<longleftrightarrow> is_space c \<or> \<not> is_space c"

lemma think_re_alt:
  "think_re = Seq (literal_ci open_tag) (Seq (Star_lazy any_cu) (literal_ci close_tag))"
  by (simp add: think_re_def any_cu_def [abs_def])

definition close_k :: "pos \<Rightarrow> pos option" where
  "close_k = rmatch (literal_ci close_tag) Some"

lemma close_k_eq:
  "close_k (p, x) =
     (if ci_prefix close_tag x then Some (lastp p (take (length close_tag) x), drop (length close_tag) x)
      else None)"
  by (simp add: close_k_def rmatch_literal_ci)

lemma match_at_think:
  "match_at think_re (prev, s) =
     (if ci_prefix open_tag s
      then star_lazy any_cu close_k
             (lastp prev (take (length open_tag) s), drop (length open_tag) s)
      else None)"
  by (simp add: match_at_def think_re_alt rmatch_literal_ci close_k_def)

lemma length_open_tag [simp]: "length open_tag = 7"
  by (simp add: open_tag_def str_def)

lemma length_close_tag [simp]: "length close_tag = 8"
  by (simp add: close_tag_def str_def)

lemma match_at_think_segment:
  assumes Op: "list_all2 ci open_tag Op" and Cl: "list_all2 ci close_tag Cl"
    and first: "find_ci close_tag (B @ Cl) = Some (length B)"
  shows "match_at think_re (prev, Op @ B @ Cl @ post) = Some (Some (last Cl), post)"
proof -
  from Op have lOp: "length Op = 7" by (auto dest: list_all2_lengthD)
  from Cl have lCl: "length Cl = 8" by (auto dest: list_all2_lengthD)
  have skip: "close_k (lastp p (take i B), drop i B @ Cl @ post) = None" if "i < length B" for i p
  proof -
    from find_ci_Some [OF first] that have "\<not> ci_prefix close_tag (drop i (B @ Cl))" by blast
    moreover have "ci_prefix close_tag ((drop i (B @ Cl)) @ post) = ci_prefix close_tag (drop i (B @ Cl))"
      by (rule ci_prefix_append) (use that lCl in simp)
    ultimately show ?thesis using that by (simp add: close_k_eq)
  qed
  have "star_lazy any_cu close_k (lastp prev Op, B @ (Cl @ post))
        = star_lazy any_cu close_k (lastp (lastp prev Op) B, Cl @ post)"
    by (rule star_lazy_skip) (use skip in \<open>auto simp: any_cu_def\<close>)
  also have "\<dots> = Some (Some (last Cl), post)"
  proof (rule star_lazy_here)
    from lCl have "Cl \<noteq> []" by auto
    then show "close_k (lastp (lastp prev Op) B, Cl @ post) = Some (Some (last Cl), post)"
      using ci_prefix_all2 [OF Cl, of post] lCl by (simp add: close_k_eq lastp_def)
  qed
  finally show ?thesis
    using ci_prefix_all2 [OF Op, of "B @ Cl @ post"] lOp by (simp add: match_at_think)
qed

lemma star_lazy_SomeD:
  "star_lazy p k (prev, x) = Some e \<Longrightarrow>
   \<exists>i\<le>length x. k (lastp prev (take i x), drop i x) = Some e"
proof (induction x arbitrary: prev)
  case Nil
  then show ?case by simp
next
  case (Cons c x)
  show ?case
  proof (cases "k (prev, c # x)")
    case (Some r)
    with Cons.prems have "k (lastp prev (take 0 (c # x)), drop 0 (c # x)) = Some e" by simp
    then show ?thesis by blast
  next
    case None
    with Cons.prems have "star_lazy p k (Some c, x) = Some e" by (auto split: if_splits)
    from Cons.IH [OF this] obtain i where "i \<le> length x" "k (lastp (Some c) (take i x), drop i x) = Some e"
      by blast
    then have "Suc i \<le> length (c # x)" "k (lastp prev (take (Suc i) (c # x)), drop (Suc i) (c # x)) = Some e"
      by auto
    then show ?thesis by blast
  qed
qed

lemma match_at_think_SomeD:
  assumes "match_at think_re (prev, s) = Some e"
  shows "ci_prefix open_tag s \<and> find_ci close_tag (drop 7 s) \<noteq> None"
proof -
  from assms have op: "ci_prefix open_tag s"
    and "star_lazy any_cu close_k (lastp prev (take 7 s), drop 7 s) = Some e"
    by (auto simp: match_at_think split: if_splits)
  from star_lazy_SomeD [OF this(2)] obtain i where i: "i \<le> length (drop 7 s)"
    "close_k (lastp (lastp prev (take 7 s)) (take i (drop 7 s)), drop i (drop 7 s)) = Some e" by blast
  then have "ci_prefix close_tag (drop i (drop 7 s))" by (auto simp: close_k_eq split: if_splits)
  from find_ci_exists [OF this i(1)] op show ?thesis by auto
qed


lemma exec_None:
  "(\<And>i. i \<le> length s \<Longrightarrow> match_at r (lastp prev (take i s), drop i s) = None) \<Longrightarrow>
   exec r prev s = None"
proof (induction s arbitrary: prev)
  case Nil
  from Nil [of 0] show ?case by simp
next
  case (Cons c s)
  from Cons.prems [of 0] have k0: "match_at r (prev, c # s) = None" by simp
  have "match_at r (lastp (Some c) (take i s), drop i s) = None" if "i \<le> length s" for i
    using Cons.prems [of "Suc i"] that by simp
  with Cons.IH have "exec r (Some c) s = None" by blast
  with k0 show ?case by simp
qed

text \<open>
  A text with reasoning blocks, read from left to right: the text before a block, the
  opening delimiter, what is between the delimiters, and the closing delimiter; after
  the last block comes the rest. \<open>delimited\<close> says that the opening delimiter is the
  first one from where the segment starts (the leftmost match) and that the closing
  delimiter is the first one after the opening delimiter (the non-greedy match), both
  in any letter case. \<open>has_pair\<close> says that a text has an opening delimiter with a
  closing delimiter somewhere after it.
\<close>

record segment =
  before :: jsstr
  opener :: jsstr
  inside :: jsstr
  closer :: jsstr

fun assemble :: "segment list \<Rightarrow> jsstr \<Rightarrow> jsstr" where
  "assemble [] rest = rest"
| "assemble (g # gs) rest = before g @ opener g @ inside g @ closer g @ assemble gs rest"

fun kept :: "segment list \<Rightarrow> jsstr \<Rightarrow> jsstr" where
  "kept [] rest = rest"
| "kept (g # gs) rest = before g @ kept gs rest"

definition delimited :: "segment \<Rightarrow> bool" where
  "delimited g \<longleftrightarrow>
     list_all2 ci open_tag (opener g) \<and> list_all2 ci close_tag (closer g) \<and>
     find_ci open_tag (before g @ opener g) = Some (length (before g)) \<and>
     find_ci close_tag (inside g @ closer g) = Some (length (inside g))"

definition has_pair :: "jsstr \<Rightarrow> bool" where
  "has_pair s =
     (case find_ci open_tag s of
        None \<Rightarrow> False
      | Some i \<Rightarrow> find_ci close_tag (drop (i + length open_tag) s) \<noteq> None)"

lemma no_pair_no_match:
  assumes np: "\<not> has_pair s" and i: "i \<le> length s"
  shows "match_at think_re (p, drop i s) = None"
proof (rule ccontr)
  assume "match_at think_re (p, drop i s) \<noteq> None"
  then obtain e where "match_at think_re (p, drop i s) = Some e" by auto
  from match_at_think_SomeD [OF this]
  have op: "ci_prefix open_tag (drop i s)" and cl: "find_ci close_tag (drop 7 (drop i s)) \<noteq> None"
    by auto
  from find_ci_exists [OF op i] obtain n where n: "n \<le> i" "find_ci open_tag s = Some n" by blast
  from cl obtain j where "find_ci close_tag (drop 7 (drop i s)) = Some j" by auto
  from find_ci_Some [OF this] have j: "j \<le> length (drop 7 (drop i s))"
    "ci_prefix close_tag (drop j (drop 7 (drop i s)))" by auto
  have "j + (7 + i) = j + (i - n) + (n + 7)" using n(1) by arith
  then have "drop j (drop 7 (drop i s)) = drop (j + (i - n)) (drop (n + 7) s)"
    by (simp only: drop_drop)
  with j(2) have "ci_prefix close_tag (drop (j + (i - n)) (drop (n + 7) s))" by simp
  moreover have "j + (i - n) \<le> length (drop (n + 7) s)"
    using j(1) n(1) ci_prefix_length [OF op] by simp
  ultimately have "\<exists>m\<le>j + (i - n). find_ci close_tag (drop (n + 7) s) = Some m"
    by (rule find_ci_exists)
  with n(2) have "has_pair s" by (auto simp: has_pair_def)
  with np show False by simp
qed

lemma replace_all_no_pair: "\<not> has_pair s \<Longrightarrow> replace_all think_re prev s = s"
proof -
  assume np: "\<not> has_pair s"
  have "exec think_re prev s = None"
    by (rule exec_None) (use np no_pair_no_match in blast)
  then show ?thesis by (simp add: replace_all.simps)
qed

lemma replace_all_segment:
  assumes d: "delimited g"
  shows "replace_all think_re prev (before g @ opener g @ inside g @ closer g @ post)
         = before g @ replace_all think_re (Some (last (closer g))) post"
proof -
  let ?s = "opener g @ inside g @ closer g @ post"
  from d have op: "list_all2 ci open_tag (opener g)" and cl: "list_all2 ci close_tag (closer g)"
    and fo: "find_ci open_tag (before g @ opener g) = Some (length (before g))"
    and fc: "find_ci close_tag (inside g @ closer g) = Some (length (inside g))"
    by (auto simp: delimited_def)
  from op have lo: "length (opener g) = 7" by (auto dest: list_all2_lengthD)
  from cl have lc: "length (closer g) = 8" by (auto dest: list_all2_lengthD)
  have none: "match_at think_re (lastp prev (take i (before g)), drop i (before g) @ ?s) = None"
    if "i < length (before g)" for i
  proof -
    from find_ci_Some [OF fo] that have "\<not> ci_prefix open_tag (drop i (before g @ opener g))"
      by blast
    moreover have "ci_prefix open_tag (drop i (before g @ opener g) @ (inside g @ closer g @ post))
      = ci_prefix open_tag (drop i (before g @ opener g))"
      by (rule ci_prefix_append) (use that lo in simp)
    ultimately have "\<not> ci_prefix open_tag (drop i (before g) @ ?s)" using that by simp
    then show ?thesis by (simp add: match_at_think)
  qed
  have m: "match_at think_re (lastp prev (before g), ?s) = Some (Some (last (closer g)), post)"
    using op cl fc by (rule match_at_think_segment)
  have "exec think_re (lastp prev (before g)) ?s
        = Some ([], opener g @ inside g @ closer g, (Some (last (closer g)), post))"
    using exec_here [OF m] by simp
  moreover have "exec think_re prev (before g @ ?s)
        = map_option (\<lambda>(sk, m, e). (before g @ sk, m, e)) (exec think_re (lastp prev (before g)) ?s)"
    by (rule exec_skip) (use none in blast)
  ultimately have "exec think_re prev (before g @ ?s)
        = Some (before g, opener g @ inside g @ closer g, (Some (last (closer g)), post))"
    by simp
  moreover from lo have "opener g \<noteq> []" by auto
  ultimately show ?thesis by (simp add: replace_all.simps [of _ _ "before g @ ?s"])
qed

lemma replace_all_assemble:
  "\<forall>g\<in>set gs. delimited g \<Longrightarrow> \<not> has_pair rest \<Longrightarrow>
   replace_all think_re prev (assemble gs rest) = kept gs rest"
proof (induction gs arbitrary: prev)
  case Nil
  then show ?case by (simp add: replace_all_no_pair)
next
  case (Cons g gs)
  then show ?case by (simp add: replace_all_segment)
qed

text \<open>
  C3, as stated: the extractor's result for a text with reasoning blocks is the
  extractor's result for the text with every block removed. The source removes the
  blocks in one pass from left to right and scans what is left as it stands. The only
  block of the text below is the empty one inside its first line. With that block
  removed, the first line reads \<open><think>\<close> and the last line closes it: the extractor,
  applied to this text, removes all of it and returns nothing, while for the text
  itself it returns the numbered line.
\<close>

theorem think_blocks_removed_in_one_pass:
  "remove_think
     (str ''<thi<think></think>nk>'' @ [0x0A] @ str ''1. hidden'' @ [0x0A] @ str ''</think>'')
     = str ''<think>'' @ [0x0A] @ str ''1. hidden'' @ [0x0A] @ str ''</think>'' \<and>
   extractBulletPoints
     (str ''<thi<think></think>nk>'' @ [0x0A] @ str ''1. hidden'' @ [0x0A] @ str ''</think>'')
     = [str ''hidden''] \<and>
   extractBulletPoints (str ''<think>'' @ [0x0A] @ str ''1. hidden'' @ [0x0A] @ str ''</think>'')
     = []"
  by (simp add: extract_eval)

text \<open>
  C3, amended. For a text with reasoning blocks, whatever their letter case, their number
  and the lines they span, the extractor returns what the line scan returns for the
  text that is left when every block, delimiters included, is cut out in one pass:
  nothing between a pair of delimiters reaches the result. Where what is left holds no
  pair of delimiters of its own, this is the extractor's result for what is left.
\<close>

theorem extractBulletPoints_ignores_think_blocks:
  "\<forall>g\<in>set gs. delimited g \<Longrightarrow> \<not> has_pair rest \<Longrightarrow>
   extractBulletPoints (assemble gs rest) = scan_bullets (kept gs rest) \<and>
   (\<not> has_pair (kept gs rest) \<longrightarrow>
      extractBulletPoints (assemble gs rest) = extractBulletPoints (kept gs rest))"
  by (simp add: extractBulletPoints_def remove_think_def replace_all_assemble
      replace_all_no_pair)

definition think_block1 :: segment where
  "think_block1 =
     \<lparr>before = str ''1. a'' @ [0x0A], opener = str ''<THINK>'',
      inside = [0x0A] @ str ''2. hidden'' @ [0x0A], closer = str ''</think>''\<rparr>"

definition think_block2 :: segment where
  "think_block2 =
     \<lparr>before = [0x0A] @ str ''- b'', opener = str ''<think>'',
      inside = [], closer = str ''</Think>''\<rparr>"

theorem extractBulletPoints_ignores_think_blocks_witness:
  "delimited think_block1 \<and> delimited think_block2 \<and> \<not> has_pair ([0x0A] @ str ''3. c'') \<and>
   extractBulletPoints (assemble [think_block1, think_block2] ([0x0A] @ str ''3. c''))
     = scan_bullets (kept [think_block1, think_block2] ([0x0A] @ str ''3. c'')) \<and>
   scan_bullets (kept [think_block1, think_block2] ([0x0A] @ str ''3. c''))
     = [str ''a'', str ''b'', str ''c''] \<and>
   \<not> has_pair (kept [think_block1, think_block2] ([0x0A] @ str ''3. c'')) \<and>
   extractBulletPoints (assemble [think_block1, think_block2] ([0x0A] @ str ''3. c''))
     = extractBulletPoints (kept [think_block1, think_block2] ([0x0A] @ str ''3. c''))"
proof -
  have h1: "delimited think_block1" "delimited think_block2"
    by (simp_all add: think_block1_def think_block2_def delimited_def open_tag_def
        close_tag_def str_def char_class_defs)
  then have h1': "\<forall>g\<in>set [think_block1, think_block2]. delimited g" by simp
  have h2: "\<not> has_pair ([0x0A] @ str ''3. c'')"
    by (simp add: has_pair_def open_tag_def close_tag_def str_def char_class_defs)
  have h3: "scan_bullets (kept [think_block1, think_block2] ([0x0A] @ str ''3. c''))
     = [str ''a'', str ''b'', str ''c'']"
    by (simp add: think_block1_def think_block2_def extract_eval)
  have h4: "\<not> has_pair (kept [think_block1, think_block2] ([0x0A] @ str ''3. c''))"
    by (simp add: think_block1_def think_block2_def has_pair_def open_tag_def close_tag_def
        str_def char_class_defs)
  note t = extractBulletPoints_ignores_think_blocks [OF h1' h2]
  from t have a: "extractBulletPoints (assemble [think_block1, think_block2] ([0x0A] @ str ''3. c''))
     = scan_bullets (kept [think_block1, think_block2] ([0x0A] @ str ''3. c''))"
    by (rule conjunct1)
  from t h4 have b: "extractBulletPoints (assemble [think_block1, think_block2] ([0x0A] @ str ''3. c''))
     = extractBulletPoints (kept [think_block1, think_block2] ([0x0A] @ str ''3. c''))"
    by blast
  from a b h1 h2 h3 h4 show ?thesis by blast
qed

lemma ci_prefix_take: "ci_prefix pat s \<Longrightarrow> list_all2 ci pat (take (length pat) s)"
  by (induction pat s rule: ci_prefix.induct) auto

text \<open>Every text is of this shape, so the theorem covers every input.\<close>

lemma decompose:
  "\<exists>gs rest. s = assemble gs rest \<and> (\<forall>g\<in>set gs. delimited g) \<and> \<not> has_pair rest"
proof (induction "length s" arbitrary: s rule: less_induct)
  case less
  show ?case
  proof (cases "has_pair s")
    case False
    then have "s = assemble [] s \<and> (\<forall>g\<in>set []. delimited g) \<and> \<not> has_pair s" by simp
    then show ?thesis by blast
  next
    case True
    then obtain i j where i: "find_ci open_tag s = Some i"
      and j: "find_ci close_tag (drop (i + 7) s) = Some j"
      by (auto simp: has_pair_def split: option.splits)
    let ?d = "drop (i + 7) s"
    from find_ci_Some [OF i] have i1: "i \<le> length s" and i2: "ci_prefix open_tag (drop i s)"
      and i3: "\<forall>k<i. \<not> ci_prefix open_tag (drop k s)" by auto
    from find_ci_Some [OF j] have j1: "j \<le> length ?d" and j2: "ci_prefix close_tag (drop j ?d)"
      and j3: "\<forall>k<j. \<not> ci_prefix close_tag (drop k ?d)" by auto
    from ci_prefix_length [OF i2] have li: "i + 7 \<le> length s" by simp
    from ci_prefix_length [OF j2] have lj: "j + 8 \<le> length ?d" by simp
    define g where "g = \<lparr>before = take i s, opener = take 7 (drop i s),
      inside = take j ?d, closer = take 8 (drop j ?d)\<rparr>"
    define rest where "rest = drop 8 (drop j ?d)"
    have t: "s = before g @ opener g @ inside g @ closer g @ rest"
    proof -
      have "s = take i s @ drop i s" by simp
      also have "drop i s = take 7 (drop i s) @ ?d" 
        by (metis add.commute append_take_drop_id drop_drop)
      also have "?d = take j ?d @ drop j ?d" by (rule append_take_drop_id [symmetric])
      also have "drop j ?d = take 8 (drop j ?d) @ rest"
        unfolding rest_def by (rule append_take_drop_id [symmetric])
      finally show ?thesis by (simp add: g_def)
    qed
    have lo: "length (opener g) = 7" using li by (simp add: g_def)
    have lc: "length (closer g) = 8" using lj by (simp add: g_def)
    have lb: "length (before g) = i" using i1 by (simp add: g_def)
    have lB: "length (inside g) = j" using j1 by (simp add: g_def)
    have d: "delimited g"
    proof -
      have a: "list_all2 ci open_tag (opener g)"
        using ci_prefix_take [OF i2] by (simp add: g_def)
      have b: "list_all2 ci close_tag (closer g)"
        using ci_prefix_take [OF j2] by (simp add: g_def)
      have c: "find_ci open_tag (before g @ opener g) = Some (length (before g))"
      proof (rule find_ci_first)
        show "ci_prefix open_tag (drop (length (before g)) (before g @ opener g))"
          using ci_prefix_all2 [OF a, of "[]"] by simp
        show "length (before g) \<le> length (before g @ opener g)" by simp
        fix k assume k: "k < length (before g)"
        have "drop k s = drop k (before g @ opener g) @ (inside g @ closer g @ rest)"
          using t k by (metis append.assoc drop_append less_imp_le_nat diff_is_0_eq drop0 length_append trans_le_add1)
        moreover have "ci_prefix open_tag (drop k (before g @ opener g) @ (inside g @ closer g @ rest))
          = ci_prefix open_tag (drop k (before g @ opener g))"
          by (rule ci_prefix_append) (use k lo in simp)
        moreover from i3 k lb have "\<not> ci_prefix open_tag (drop k s)" by simp
        ultimately show "\<not> ci_prefix open_tag (drop k (before g @ opener g))" by simp
      qed
      have dd: "?d = inside g @ closer g @ rest"
        using t lb lo by (metis add.commute append_eq_conv_conj drop_drop)
      have e: "find_ci close_tag (inside g @ closer g) = Some (length (inside g))"
      proof (rule find_ci_first)
        show "ci_prefix close_tag (drop (length (inside g)) (inside g @ closer g))"
          using ci_prefix_all2 [OF b, of "[]"] by simp
        show "length (inside g) \<le> length (inside g @ closer g)" by simp
        fix k assume k: "k < length (inside g)"
        have "drop k ?d = drop k (inside g @ closer g) @ rest"
          using dd k by simp
        moreover have "ci_prefix close_tag (drop k (inside g @ closer g) @ rest)
          = ci_prefix close_tag (drop k (inside g @ closer g))"
          by (rule ci_prefix_append) (use k lc in simp)
        moreover from j3 k lB have "\<not> ci_prefix close_tag (drop k ?d)" by simp
        ultimately show "\<not> ci_prefix close_tag (drop k (inside g @ closer g))" by simp
      qed
      from a b c e show ?thesis by (simp add: delimited_def)
    qed
    have "length rest < length s" using t lo by simp
    from less [OF this] obtain gs rest' where r: "rest = assemble gs rest'"
      "\<forall>g\<in>set gs. delimited g" "\<not> has_pair rest'" by blast
    with t d have "s = assemble (g # gs) rest' \<and> (\<forall>g\<in>set (g # gs). delimited g) \<and> \<not> has_pair rest'"
      by simp
    then show ?thesis by blast
  qed
qed

section \<open>Lines and markers\<close>

lemma star_greedy_max:
  "\<forall>c\<in>set u. p c \<Longrightarrow> v = [] \<or> \<not> p (hd v) \<Longrightarrow> k (lastp prev u, v) = Some r \<Longrightarrow>
   star_greedy p k (prev, u @ v) = Some r"
proof (induction u arbitrary: prev)
  case Nil
  then show ?case by (cases v) auto
next
  case (Cons c u)
  then have "star_greedy p k (Some c, u @ v) = Some r" by simp
  with Cons.prems(1) show ?case by simp
qed

lemma star_greedy_SomeD:
  "star_greedy p k (prev, s) = Some e \<Longrightarrow>
   \<exists>u v. s = u @ v \<and> (\<forall>c\<in>set u. p c) \<and> k (lastp prev u, v) = Some e"
proof (induction s arbitrary: prev)
  case Nil
  then have "k (lastp prev [], []) = Some e" by simp
  then show ?case by (intro exI [of _ "[]"]) simp
next
  case (Cons c s)
  show ?case
  proof (cases "p c \<and> star_greedy p k (Some c, s) \<noteq> None")
    case True
    with Cons.prems have "star_greedy p k (Some c, s) = Some e" by auto
    from Cons.IH [OF this] obtain u v where uv: "s = u @ v" "\<forall>c\<in>set u. p c" "k (lastp (Some c) u, v) = Some e"
      by blast
    from uv(3) have "k (lastp prev (c # u), v) = Some e" by simp
    moreover from uv(2) True have "\<forall>x\<in>set (c # u). p x" by simp
    moreover from uv(1) have "c # s = (c # u) @ v" by simp
    ultimately show ?thesis by blast
  next
    case False
    with Cons.prems have "k (prev, c # s) = Some e"
      by (cases "star_greedy p k (Some c, s)") (auto split: if_splits)
    then have "k (lastp prev [], c # s) = Some e" by simp
    then show ?thesis by (intro exI [of _ "[]"] exI [of _ "c # s"]) simp
  qed
qed

text \<open>
  \<open>marker_prefix\<close> is what the marker pattern accepts at the start of a text: an
  integer, a period and at least one more code unit, or a hyphen and a whitespace code
  unit. The code unit after the period or the hyphen may be a line terminator: the class
  \<open>\s\<close> holds the line terminators.
\<close>

fun after_digits :: "jsstr \<Rightarrow> bool" where
  "after_digits [] = False"
| "after_digits (c # cs) = (if is_digit c then after_digits cs else c = 0x2E \<and> cs \<noteq> [])"

fun marker_prefix :: "jsstr \<Rightarrow> bool" where
  "marker_prefix [] = False"
| "marker_prefix (c # cs) =
     (is_digit c \<and> after_digits cs \<or> c = 0x2D \<and> (case cs of [] \<Rightarrow> False | b # _ \<Rightarrow> is_space b))"

text \<open>
  The specification reads the text line by line. \<open>js_lines\<close> cuts a text into its lines,
  each with the line terminator that ends it, and \<open>untermin\<close> is a line without its
  terminator. \<open>marked_line\<close>: the line begins with a marker, that is, without its
  terminator it begins with an integer and a period followed by whitespace or by text,
  or with a hyphen followed by whitespace. \<open>bare_marker\<close>: the line is an integer with its
  period, or a hyphen, and nothing else up to the terminator that ends it; the pattern
  accepts such a line with its terminator as the whitespace of the marker, and the
  reading line by line does not.
\<close>

fun js_lines :: "jsstr \<Rightarrow> jsstr list" where
  "js_lines [] = []"
| "js_lines (c # cs) =
     (if is_lt c then [c] # js_lines cs
      else (case js_lines cs of [] \<Rightarrow> [[c]] | l # ls \<Rightarrow> (c # l) # ls))"

definition untermin :: "jsstr \<Rightarrow> jsstr" where
  "untermin l = (if is_lt (last l) then butlast l else l)"

definition marked_line :: "jsstr \<Rightarrow> bool" where
  "marked_line l \<longleftrightarrow> marker_prefix (untermin l)"

definition bare_marker :: "jsstr \<Rightarrow> bool" where
  "bare_marker l \<longleftrightarrow> marker_prefix l \<and> \<not> marked_line l"

lemma after_digits_append: "\<forall>c\<in>set u. is_digit c \<Longrightarrow> after_digits (u @ v) = after_digits v"
  by (induction u) auto

lemma not_digit_dot [simp]: "\<not> is_digit 0x2E" "\<not> is_digit 0x2D" "\<not> is_lt 0x2E" "\<not> is_lt 0x2D"
  "\<not> is_space 0x2E" "\<not> is_space 0x2D" "is_space 0x20" "\<not> is_lt 0x20" "\<not> is_digit 0x20"
  by (simp_all add: char_class_defs)

lemma digit_not_lt: "is_digit c \<Longrightarrow> \<not> is_lt c"
  by (auto simp: char_class_defs)

lemma digit_not_space: "is_digit c \<Longrightarrow> \<not> is_space c"
  by (auto simp: char_class_defs)

lemma lt_space: "is_lt c \<Longrightarrow> is_space c"
  by (auto simp: char_class_defs)


lemma marker_SomeD:
  assumes "rmatch marker k (prev, s) = Some e"
  shows "marker_prefix s"
proof -
  let ?k2 = "rmatch (Seq (Class (\<lambda>c. c = 0x2E)) (Alt (Plus is_space) (Lookahead (\<lambda>c. \<not> is_space c)))) k"
  from assms consider
      (num) "one_of is_digit (star_greedy is_digit ?k2) (prev, s) = Some e"
    | (hyp) "one_of (\<lambda>c. c = 0x2D) (one_of is_space (star_greedy is_space k)) (prev, s) = Some e"
    by (auto simp: marker_def split: option.splits)
  then show ?thesis
  proof cases
    case num
    then obtain c cs where s: "s = c # cs" and c: "is_digit c"
      and g: "star_greedy is_digit ?k2 (Some c, cs) = Some e"
      by (cases s) (auto split: if_splits)
    from star_greedy_SomeD [OF g] obtain u v where uv: "cs = u @ v" "\<forall>c\<in>set u. is_digit c"
      and k2: "?k2 (lastp (Some c) u, v) = Some e" by blast
    from k2 obtain w where v: "v = 0x2E # w" by (cases v) (auto split: if_splits)
    with k2 have "w \<noteq> []" by (cases w) (auto split: option.splits if_splits)
    with v have "after_digits v" by simp
    with uv have "after_digits cs" by (simp add: after_digits_append)
    with s c show ?thesis by simp
  next
    case hyp
    then obtain cs where s: "s = 0x2D # cs"
      and g: "one_of is_space (star_greedy is_space k) (Some 0x2D, cs) = Some e"
      by (cases s) (auto split: if_splits)
    then obtain b bs where "cs = b # bs" "is_space b" by (cases cs) (auto split: if_splits)
    with s show ?thesis by simp
  qed
qed

lemma bullet_SomeD:
  "match_at bullet_re (prev, s) = Some e \<Longrightarrow> at_line_start (prev, s) \<and> marker_prefix s"
  by (auto simp: match_at_def bullet_re_def split: if_splits dest: marker_SomeD)

lemma after_digits_prefix:
  "after_digits (l @ r) \<Longrightarrow> r = [] \<or> l \<noteq> [] \<and> is_lt (last l) \<Longrightarrow> after_digits l"
proof (induction l)
  case Nil
  then show ?case by simp
next
  case (Cons c l)
  show ?case
  proof (cases "is_digit c")
    case True
    with Cons.prems(1) have a: "after_digits (l @ r)" by simp
    have "r = [] \<or> l \<noteq> [] \<and> is_lt (last l)"
      using Cons.prems(2) True digit_not_lt by (cases "l = []") auto
    with Cons.IH a True show ?thesis by simp
  next
    case False
    with Cons.prems(1) have c: "c = 0x2E" and n: "l @ r \<noteq> []" by auto
    have "l \<noteq> []" using Cons.prems(2) c n by (cases "l = []") auto
    with False c show ?thesis by simp
  qed
qed

lemma marker_prefix_cut:
  assumes "marker_prefix (l @ r)" and "l \<noteq> []" and "r = [] \<or> is_lt (last l)"
  shows "marker_prefix l"
proof -
  from assms(2) obtain c l' where l: "l = c # l'" by (cases l) auto
  from assms(1) l consider (num) "is_digit c" "after_digits (l' @ r)"
    | (hyp) "c = 0x2D" "\<exists>b bs. l' @ r = b # bs \<and> is_space b"
    by (auto split: list.splits)
  then show ?thesis
  proof cases
    case num
    have "r = [] \<or> l' \<noteq> [] \<and> is_lt (last l')"
      using assms(3) l num(1) digit_not_lt by (cases "l' = []") auto
    with num(2) have "after_digits l'" by (rule after_digits_prefix)
    with num(1) l show ?thesis by simp
  next
    case hyp
    then obtain b bs where b: "l' @ r = b # bs" "is_space b" by blast
    have "l' \<noteq> []" using assms(3) l hyp(1) b by (cases "l' = []") auto
    with b obtain bs' where "l' = b # bs'" by (cases l') auto
    with hyp(1) b(2) l show ?thesis by simp
  qed
qed

lemma js_lines_first:
  "s \<noteq> [] \<Longrightarrow>
   js_lines s \<noteq> [] \<and> hd (js_lines s) \<noteq> [] \<and>
   (\<exists>r. s = hd (js_lines s) @ r \<and> (r = [] \<or> is_lt (last (hd (js_lines s)))))"
proof (induction s)
  case Nil
  then show ?case by simp
next
  case (Cons c cs)
  show ?case
  proof (cases "is_lt c")
    case True
    then show ?thesis by simp
  next
    case False
    show ?thesis
    proof (cases "cs = []")
      case True
      with False show ?thesis by simp
    next
      case ne: False
      from Cons.IH [OF ne] obtain r where l: "js_lines cs \<noteq> []" "hd (js_lines cs) \<noteq> []"
        and r: "cs = hd (js_lines cs) @ r" "r = [] \<or> is_lt (last (hd (js_lines cs)))" by blast
      from l obtain l' ls where ls: "js_lines cs = l' # ls" by (cases "js_lines cs") auto
      with False have h: "js_lines (c # cs) = (c # l') # ls" by simp
      from r ls l have "c # cs = (c # l') @ r" "r = [] \<or> is_lt (last (c # l'))" by auto
      with h show ?thesis by (simp del: js_lines.simps) 
    qed
  qed
qed

lemma marker_prefix_first_line:
  assumes "marker_prefix s"
  shows "js_lines s \<noteq> [] \<and> marker_prefix (hd (js_lines s))"
proof -
  from assms have "s \<noteq> []" by auto
  from js_lines_first [OF this] obtain r where d: "js_lines s \<noteq> []" "hd (js_lines s) \<noteq> []"
    "s = hd (js_lines s) @ r" "r = [] \<or> is_lt (last (hd (js_lines s)))" by blast
  from assms d(3) have "marker_prefix (hd (js_lines s) @ r)" by simp
  from marker_prefix_cut [OF this d(2) d(4)] d(1) show ?thesis by simp
qed

lemma set_tl_subset: "x \<in> set (tl xs) \<Longrightarrow> x \<in> set xs"
  by (cases xs) auto

lemma exec_bullet_None:
  "(if at_line_start (prev, s) then \<forall>l\<in>set (js_lines s). \<not> marker_prefix l
    else \<forall>l\<in>set (tl (js_lines s)). \<not> marker_prefix l) \<Longrightarrow>
   exec bullet_re prev s = None"
proof (induction s arbitrary: prev)
  case Nil
  have "match_at bullet_re (prev, []) = None"
    using bullet_SomeD [of prev "[]"] by (cases "match_at bullet_re (prev, [])") auto
  then show ?case by simp
next
  case (Cons c cs)
  have m: "match_at bullet_re (prev, c # cs) = None"
  proof (cases "match_at bullet_re (prev, c # cs)")
    case (Some e)
    from bullet_SomeD [OF this] have a: "at_line_start (prev, c # cs)" and b: "marker_prefix (c # cs)"
      by auto
    from marker_prefix_first_line [OF b]
    have "hd (js_lines (c # cs)) \<in> set (js_lines (c # cs))" "marker_prefix (hd (js_lines (c # cs)))"
      by (auto simp del: js_lines.simps)
    with a Cons.prems show ?thesis by (auto simp del: js_lines.simps)
  qed simp
  have t: "\<forall>l\<in>set (tl (js_lines (c # cs))). \<not> marker_prefix l"
    using Cons.prems by (cases "at_line_start (prev, c # cs)") (auto simp del: js_lines.simps dest: set_tl_subset)
  have "if at_line_start (Some c, cs) then \<forall>l\<in>set (js_lines cs). \<not> marker_prefix l
    else \<forall>l\<in>set (tl (js_lines cs)). \<not> marker_prefix l"
    using t by (cases "is_lt c") (auto split: list.splits)
  from Cons.IH [OF this] m show ?case by simp
qed

lemma scan_bullets_no_marker:
  "\<forall>l\<in>set (js_lines s). \<not> marker_prefix l \<Longrightarrow> scan_bullets s = []"
  using exec_bullet_None [of None s] by (simp add: scan_bullets_def match_all.simps)

lemma after_digits_extend: "after_digits u \<Longrightarrow> after_digits (u @ v)"
  by (induction u) auto

lemma marker_prefix_extend: "marker_prefix u \<Longrightarrow> marker_prefix (u @ v)"
  by (cases u) (auto simp: after_digits_extend split: list.splits)

lemma marked_line_prefix: "marked_line l \<Longrightarrow> marker_prefix l"
proof (cases "l = []")
  case True
  assume "marked_line l"
  with True show ?thesis by (simp add: marked_line_def untermin_def split: if_splits)
next
  case False
  assume m: "marked_line l"
  show ?thesis
  proof (cases "is_lt (last l)")
    case True
    with m have "marker_prefix (butlast l)" by (simp add: marked_line_def untermin_def)
    then have "marker_prefix (butlast l @ [last l])" by (rule marker_prefix_extend)
    with False show ?thesis by simp
  next
    case False
    with m show ?thesis by (simp add: marked_line_def untermin_def)
  qed
qed

lemma marker_prefix_iff_marked:
  "\<not> bare_marker l \<Longrightarrow> marker_prefix l \<longleftrightarrow> marked_line l"
  using marked_line_prefix by (auto simp: bare_marker_def)

text \<open>
  Where no line begins with a marker and no line is a bare marker, the line scan finds
  nothing.
\<close>

lemma scan_bullets_no_marked_line:
  "\<forall>l\<in>set (js_lines s). \<not> marked_line l \<and> \<not> bare_marker l \<Longrightarrow> scan_bullets s = []"
  by (rule scan_bullets_no_marker) (auto simp: bare_marker_def)

text \<open>
  Bare markers: a hyphen or a numbered marker alone on a line that a terminator ends is
  no marked line, and the extractor takes the next line as its body. At the end of the
  text, where no terminator follows, the pattern does not accept it.
\<close>

lemma bare_marker_examples:
  "bare_marker (str ''-'' @ [0x0A])" "bare_marker (str ''1.'' @ [0x0A])"
  "\<not> marked_line (str ''-'' @ [0x0A])" "\<not> marked_line (str ''1.'' @ [0x0A])"
  "\<not> marked_line (str ''1.'')" "\<not> bare_marker (str ''1.'')"
  "marked_line (str ''- '' @ [0x0A])" "\<not> bare_marker (str ''- '' @ [0x0A])"
  "extractBulletPoints (str ''1.'' @ [0x0A] @ str ''Some prose'') = [str ''Some prose'']"
  "extractBulletPoints (str ''prose'' @ [0x0A] @ str ''-'') = []"
  by (simp_all add: bare_marker_def marked_line_def untermin_def extract_eval)

section \<open>Numbered lines and the round trip\<close>

lemma marker_number:
  assumes ds: "ds \<noteq> []" "\<forall>c\<in>set ds. is_digit c" and ws: "\<forall>c\<in>set ws. is_space c"
    and v: "v \<noteq> []" "\<not> is_space (hd v)" and k: "k (lastp (Some 0x2E) ws, v) = Some r"
  shows "rmatch marker k (prev, ds @ 0x2E # ws @ v) = Some r"
proof -
  let ?alt = "Alt (Plus is_space) (Lookahead (\<lambda>c. \<not> is_space c))"
  let ?k2 = "rmatch (Seq (Class (\<lambda>c. c = 0x2E)) ?alt) k"
  from v obtain c cs where vc: "v = c # cs" "\<not> is_space c" by (cases v) auto
  have a: "rmatch ?alt k (Some 0x2E, ws @ v) = Some r"
  proof (cases ws)
    case Nil
    with vc k show ?thesis by simp
  next
    case (Cons w ws')
    with ws have w: "is_space w" "\<forall>c\<in>set ws'. is_space c" by auto
    have "star_greedy is_space k (Some w, ws' @ v) = Some r"
      by (rule star_greedy_max) (use w v k Cons in auto)
    with Cons w show ?thesis by simp
  qed
  from ds obtain d ds' where d: "ds = d # ds'" "is_digit d" "\<forall>c\<in>set ds'. is_digit c"
    by (cases ds) auto
  have k2: "?k2 (lastp (Some d) ds', 0x2E # ws @ v) = Some r" using a by simp
  have "0x2E # ws @ v = [] \<or> \<not> is_digit (hd (0x2E # ws @ v))" by simp
  with d(3) have "star_greedy is_digit ?k2 (Some d, ds' @ (0x2E # ws @ v)) = Some r"
    using k2 by (rule star_greedy_max)
  with d show ?thesis by (simp add: marker_def)
qed

lemma marker_hyphen:
  assumes ws: "ws \<noteq> []" "\<forall>c\<in>set ws. is_space c" and v: "v = [] \<or> \<not> is_space (hd v)"
    and k: "k (lastp (Some 0x2D) ws, v) = Some r"
  shows "rmatch marker k (prev, 0x2D # ws @ v) = Some r"
proof -
  from ws obtain w ws' where w: "ws = w # ws'" "is_space w" "\<forall>c\<in>set ws'. is_space c"
    by (cases ws) auto
  have "star_greedy is_space k (Some w, ws' @ v) = Some r"
    by (rule star_greedy_max) (use w v k in auto)
  with w show ?thesis by (simp add: marker_def)
qed

lemma line_rest:
  assumes a: "\<forall>c\<in>set a. \<not> is_lt c" and rest: "rest = [] \<or> is_lt (hd rest)"
  shows "rmatch (Seq (Star is_dot) Line_end) Some (p, a @ rest) = Some (lastp p a, rest)"
proof -
  have "at_line_end (lastp p a, rest)" using rest by (cases rest) auto
  then have "(\<lambda>x. if at_line_end x then Some x else None) (lastp p a, rest) = Some (lastp p a, rest)"
    by simp
  with a rest have "star_greedy is_dot (\<lambda>x. if at_line_end x then Some x else None) (p, a @ rest)
    = Some (lastp p a, rest)"
    by (intro star_greedy_max) (auto simp: is_dot_def)
  then show ?thesis by simp
qed

lemma bullet_numbered_line:
  assumes st: "at_line_start (prev, [])" and ds: "ds \<noteq> []" "\<forall>c\<in>set ds. is_digit c"
    and a: "a \<noteq> []" "\<not> is_space (hd a)" "\<forall>c\<in>set a. \<not> is_lt c"
    and rest: "rest = [] \<or> is_lt (hd rest)"
  shows "match_at bullet_re (prev, ds @ 0x2E # [0x20] @ a @ rest) = Some (Some (last a), rest)"
proof -
  have "rmatch (Seq (Star is_dot) Line_end) Some (lastp (Some 0x2E) [0x20], a @ rest)
        = Some (lastp (lastp (Some 0x2E) [0x20]) a, rest)"
    using a(3) rest by (rule line_rest)
  with a(1) have k: "rmatch (Seq (Star is_dot) Line_end) Some (lastp (Some 0x2E) [0x20], a @ rest)
        = Some (Some (last a), rest)" by (simp add: lastp_def)
  have "rmatch marker (rmatch (Seq (Star is_dot) Line_end) Some) (prev, ds @ 0x2E # [0x20] @ (a @ rest))
        = Some (Some (last a), rest)"
    by (rule marker_number) (use ds a k in auto)
  moreover have "at_line_start (prev, ds @ 0x2E # [0x20] @ a @ rest)"
    using st by (cases prev) auto
  ultimately show ?thesis by (simp add: match_at_def bullet_re_def)
qed

lemma strip_numbered_line:
  assumes ds: "ds \<noteq> []" "\<forall>c\<in>set ds. is_digit c"
    and a: "a \<noteq> []" "\<not> is_space (hd a)" "\<not> is_space (last a)"
  shows "trim (replace_first marker_re (ds @ 0x2E # [0x20] @ a)) = a"
proof -
  have "rmatch marker Some (None, ds @ 0x2E # [0x20] @ a) = Some (lastp (Some 0x2E) [0x20], a)"
    by (rule marker_number) (use ds a in auto)
  then have "match_at marker_re (None, ds @ 0x2E # [0x20] @ a) = Some (Some 0x20, a)"
    by (simp add: match_at_def marker_re_def)
  from exec_here [OF this] have "replace_first marker_re (ds @ 0x2E # [0x20] @ a) = a"
    by (simp add: replace_first_def)
  moreover from a obtain c cs where "a = c # cs" "\<not> is_space c" by (cases a) auto
  then have "dropWhile is_space a = a" by simp
  moreover from a have "dropWhile is_space (rev a) = rev a"
    by (cases "rev a") (auto simp: last_rev [symmetric] simp del: last_rev)
  ultimately show ?thesis by (simp add: trim_def)
qed


text \<open>
  The display text of a list of actions, as \<open>generateRoadway\<close> builds it:
  \<^verbatim>\<open>actions.map((action, index) => `${index + 1}. ${action}`).join('\n')\<close>.
  \<open>decimal\<close> is the conversion of a non-negative integer to a string.
\<close>

function decimal :: "nat \<Rightarrow> jsstr" where
  "decimal n = (if n < 10 then [0x30 + n] else decimal (n div 10) @ [0x30 + n mod 10])"
  by pat_completeness auto
termination
  by (relation "measure id") auto

declare decimal.simps [simp del]

fun join :: "jsstr \<Rightarrow> jsstr list \<Rightarrow> jsstr" where
  "join sep [] = []"
| "join sep [x] = x"
| "join sep (x # y # ys) = x @ sep @ join sep (y # ys)"

definition numbered :: "nat \<Rightarrow> jsstr list \<Rightarrow> jsstr list" where
  "numbered n actions =
     map (\<lambda>(index, action). decimal (index + 1) @ str ''. '' @ action) (enumerate n actions)"

definition innerText_of :: "jsstr list \<Rightarrow> jsstr" where
  "innerText_of actions = join [0x0A] (numbered 0 actions)"

text \<open>
  An action as the round trip needs it: not empty, on one line, without whitespace at
  either end, and without an opening delimiter of a reasoning block.
\<close>

definition plain_action :: "jsstr \<Rightarrow> bool" where
  "plain_action a \<longleftrightarrow>
     a \<noteq> [] \<and> (\<forall>c\<in>set a. \<not> is_lt c) \<and> \<not> is_space (hd a) \<and> \<not> is_space (last a) \<and>
     find_ci open_tag a = None"

lemma decimal_digits: "decimal n \<noteq> [] \<and> (\<forall>c\<in>set (decimal n). is_digit c)"
proof (induction n rule: decimal.induct)
  case (1 n)
  show ?case
  proof (cases "n < 10")
    case True
    then show ?thesis by (simp add: decimal.simps [of n] is_digit_def)
  next
    case False
    have "n mod 10 < 10" by simp
    then have "is_digit (0x30 + n mod 10)" unfolding is_digit_def by linarith
    with False 1 show ?thesis by (simp add: decimal.simps [of n])
  qed
qed

lemma join_Cons: "join sep (x # xs) = x @ (if xs = [] then [] else sep @ join sep xs)"
  by (cases xs) auto

lemma numbered_Cons:
  "numbered n (a # as) = (decimal (n + 1) @ 0x2E # [0x20] @ a) # numbered (Suc n) as"
  by (simp add: numbered_def str_def)

lemma numbered_Nil [simp]: "numbered n [] = []"
  by (simp add: numbered_def)

lemma numbered_eq_Nil [simp]: "numbered n as = [] \<longleftrightarrow> as = []"
  by (cases as) (simp_all add: numbered_def)

lemma open_tag_ne [simp]: "open_tag \<noteq> []"
  by (simp add: open_tag_def str_def)

definition tag_cu :: "cu \<Rightarrow> bool" where
  "tag_cu c \<longleftrightarrow> (\<exists>p\<in>set open_tag. ci p c)"

lemma ci_prefix_sep:
  "ci_prefix pat (u @ c # y) \<Longrightarrow> \<forall>p\<in>set pat. \<not> ci p c \<Longrightarrow> ci_prefix pat u"
  by (induction pat u rule: ci_prefix.induct) auto

lemma find_ci_sep:
  "find_ci pat x = None \<Longrightarrow> find_ci pat y = None \<Longrightarrow> \<forall>p\<in>set pat. \<not> ci p c \<Longrightarrow>
   find_ci pat (x @ c # y) = None"
proof (induction x)
  case Nil
  then have "pat \<noteq> []" by (auto split: if_splits)
  then obtain p ps where "pat = p # ps" by (cases pat) auto
  with Nil show ?case by auto
next
  case (Cons a x)
  from Cons.prems(1) have n: "\<not> ci_prefix pat (a # x)" and x: "find_ci pat x = None"
    by (auto split: if_splits)
  have "\<not> ci_prefix pat ((a # x) @ c # y)"
    using n ci_prefix_sep [of pat "a # x" c y] Cons.prems(3) by blast
  with Cons.IH [OF x Cons.prems(2,3)] show ?case by simp
qed

lemma find_ci_open_sep:
  "find_ci open_tag x = None \<Longrightarrow> find_ci open_tag y = None \<Longrightarrow> \<not> tag_cu c \<Longrightarrow>
   find_ci open_tag (x @ c # y) = None"
  by (rule find_ci_sep) (auto simp: tag_cu_def)

lemma find_ci_open_Nil [simp]: "find_ci open_tag [] = None"
  by (simp add: open_tag_def str_def)

lemma find_ci_open_plain: "\<forall>c\<in>set u. \<not> tag_cu c \<Longrightarrow> find_ci open_tag u = None"
proof (induction u rule: rev_induct)
  case Nil
  show ?case by simp
next
  case (snoc c u)
  then have "find_ci open_tag (u @ c # []) = None" by (intro find_ci_open_sep) auto
  then show ?case by simp
qed

lemma not_tag_cu: "is_digit c \<Longrightarrow> \<not> tag_cu c" "\<not> tag_cu 0x2E" "\<not> tag_cu 0x20" "\<not> tag_cu 0x0A"
  by (auto simp: tag_cu_def open_tag_def str_def char_class_defs)

lemma no_open_line:
  assumes "find_ci open_tag a = None"
  shows "find_ci open_tag (decimal n @ 0x2E # [0x20] @ a) = None"
proof -
  have "find_ci open_tag [] = None" by simp
  from find_ci_open_sep [OF this assms not_tag_cu(3)]
  have s1: "find_ci open_tag (0x20 # a) = None" by (simp only: append_Nil)
  have s2: "find_ci open_tag (decimal n) = None"
    by (rule find_ci_open_plain) (use decimal_digits not_tag_cu in blast)
  from find_ci_open_sep [OF s2 s1 not_tag_cu(2)] show ?thesis by (simp only: append_Cons append_Nil)
qed

lemma no_open_joined:
  "\<forall>a\<in>set as. plain_action a \<Longrightarrow> find_ci open_tag (join [0x0A] (numbered n as)) = None"
proof (induction as arbitrary: n)
  case Nil
  show ?case by simp
next
  case (Cons a as)
  then have a: "find_ci open_tag a = None" by (simp add: plain_action_def)
  show ?case
  proof (cases "as = []")
    case True
    with no_open_line [OF a] show ?thesis by (simp add: numbered_Cons)
  next
    case False
    have "find_ci open_tag ((decimal (n + 1) @ 0x2E # [0x20] @ a) @ 0x0A # join [0x0A] (numbered (Suc n) as)) = None"
      by (rule find_ci_open_sep) (use no_open_line [OF a] Cons not_tag_cu in auto)
    with False show ?thesis by (simp add: numbered_Cons join_Cons)
  qed
qed

lemma match_all_Nil: "match_all bullet_re prev [] = []"
proof -
  have "match_at bullet_re (prev, []) = None"
    using bullet_SomeD [of prev "[]"] by (cases "match_at bullet_re (prev, [])") auto
  then show ?thesis by (simp add: match_all.simps)
qed

lemma match_all_skip:
  assumes "match_at r (prev, c # cs) = None"
  shows "match_all r prev (c # cs) = match_all r (Some c) cs"
proof (cases "exec r (Some c) cs")
  case None
  with assms show ?thesis by (simp add: match_all.simps [of r prev] match_all.simps [of r "Some c"])
next
  case (Some t)
  obtain sk m e where "t = (sk, m, e)" by (cases t) auto
  with Some assms show ?thesis
    by (simp add: match_all.simps [of r prev] match_all.simps [of r "Some c"])
qed

lemma match_all_numbered:
  "at_line_start (prev, []) \<Longrightarrow> \<forall>a\<in>set as. plain_action a \<Longrightarrow>
   match_all bullet_re prev (join [0x0A] (numbered n as)) = numbered n as"
proof (induction as arbitrary: n prev)
  case Nil
  show ?case by (simp add: match_all_Nil)
next
  case (Cons a as)
  define line where "line = decimal (n + 1) @ 0x2E # [0x20] @ a"
  define rest where "rest = (if as = [] then [] else 0x0A # join [0x0A] (numbered (Suc n) as))"
  from Cons.prems(2) have a: "a \<noteq> []" "\<not> is_space (hd a)" "\<forall>c\<in>set a. \<not> is_lt c"
    by (auto simp: plain_action_def)
  have s: "join [0x0A] (numbered n (a # as)) = line @ rest"
    by (simp add: numbered_Cons join_Cons line_def rest_def)
  have r: "rest = [] \<or> is_lt (hd rest)" by (simp add: is_lt_def rest_def)
  have ne: "line \<noteq> []" by (simp add: line_def)
  have "match_at bullet_re (prev, decimal (n + 1) @ 0x2E # [0x20] @ a @ rest) = Some (Some (last a), rest)"
    using Cons.prems(1) decimal_digits a r by (intro bullet_numbered_line) auto
  then have "match_at bullet_re (prev, line @ rest) = Some (Some (last a), rest)"
    by (simp add: line_def)
  from exec_here [OF this]
  have "exec bullet_re prev (line @ rest) = Some ([], line, (Some (last a), rest))"
    by simp
  with ne have m: "match_all bullet_re prev (line @ rest) = line # match_all bullet_re (Some (last a)) rest"
    by (simp add: match_all.simps [of _ _ "line @ rest"])
  have "match_all bullet_re (Some (last a)) rest = numbered (Suc n) as"
  proof (cases "as = []")
    case True
    then show ?thesis by (simp add: match_all_Nil rest_def)
  next
    case False
    let ?j = "join [0x0A] (numbered (Suc n) as)"
    have "match_at bullet_re (Some (last a), 0x0A # ?j) = None"
      using bullet_SomeD [of "Some (last a)" "0x0A # ?j"]
      by (cases "match_at bullet_re (Some (last a), 0x0A # ?j)") (auto simp: char_class_defs)
    then have "match_all bullet_re (Some (last a)) (0x0A # ?j) = match_all bullet_re (Some 0x0A) ?j"
      by (rule match_all_skip)
    also have "\<dots> = numbered (Suc n) as"
      by (rule Cons.IH) (use Cons.prems in \<open>auto simp: is_lt_def\<close>)
    finally show ?thesis using False by (simp add: rest_def)
  qed
  with m s show ?case by (simp add: numbered_Cons line_def)
qed

lemma strip_numbered:
  "\<forall>a\<in>set as. plain_action a \<Longrightarrow>
   map (\<lambda>line. trim (replace_first marker_re line)) (numbered n as) = as"
proof (induction as arbitrary: n)
  case Nil
  show ?case by simp
next
  case (Cons a as)
  then have "trim (replace_first marker_re (decimal (n + 1) @ 0x2E # [0x20] @ a)) = a"
    using decimal_digits by (intro strip_numbered_line) (auto simp: plain_action_def)
  with Cons show ?case by (simp add: numbered_Cons)
qed

text \<open>
  C10. Round trip: for a list of actions that are not empty, are on one line, have no
  whitespace at either end and hold no reasoning-block delimiter, extracting from the
  numbered display text gives back the list.
\<close>

theorem extract_innerText_roundtrip:
  assumes "\<forall>a\<in>set actions. plain_action a"
  shows "extractBulletPoints (innerText_of actions) = actions"
proof -
  have "find_ci open_tag (innerText_of actions) = None"
    unfolding innerText_of_def using assms by (rule no_open_joined)
  then have "\<not> has_pair (innerText_of actions)" by (simp add: has_pair_def)
  then have "remove_think (innerText_of actions) = innerText_of actions"
    by (simp add: remove_think_def replace_all_no_pair)
  moreover have "match_all bullet_re None (innerText_of actions) = numbered 0 actions"
    unfolding innerText_of_def using assms by (intro match_all_numbered) auto
  ultimately show ?thesis
    using strip_numbered [OF assms, of 0] by (simp add: extractBulletPoints_def scan_bullets_def)
qed

theorem extract_innerText_roundtrip_witness:
  "plain_action (str ''Do X'') \<and> plain_action (str ''Look <around> - twice'') \<and>
   extractBulletPoints (innerText_of [str ''Do X'', str ''Look <around> - twice''])
     = [str ''Do X'', str ''Look <around> - twice'']"
proof -
  have h: "plain_action (str ''Do X'')" "plain_action (str ''Look <around> - twice'')"
    by (simp_all add: plain_action_def open_tag_def str_def char_class_defs)
  then have "\<forall>a\<in>set [str ''Do X'', str ''Look <around> - twice'']. plain_action a" by simp
  from extract_innerText_roundtrip [OF this] h show ?thesis by simp
qed

section \<open>The line scan against its specification\<close>

text \<open>
  The line scan as the specification words it: of the lines of the text, those that begin
  with a marker are kept, each without the integer and period or the hyphen of its marker
  and without the whitespace around what is left.
\<close>

fun drop_marker :: "jsstr \<Rightarrow> jsstr" where
  "drop_marker [] = []"
| "drop_marker (c # cs) = (if is_digit c then tl (dropWhile is_digit cs) else cs)"

definition line_body :: "jsstr \<Rightarrow> jsstr" where
  "line_body l = trim (drop_marker l)"

definition kept_bodies :: "jsstr \<Rightarrow> jsstr list" where
  "kept_bodies s = map line_body (filter marked_line (js_lines s))"

text \<open>
  A line of \<open>js_lines\<close> is not empty and holds a line terminator at its end at most; every
  line but the last one ends with one.
\<close>

definition line_shaped :: "jsstr \<Rightarrow> bool" where
  "line_shaped l \<longleftrightarrow> l \<noteq> [] \<and> (\<forall>c\<in>set (butlast l). \<not> is_lt c)"

fun wf_lines :: "jsstr list \<Rightarrow> bool" where
  "wf_lines [] = True"
| "wf_lines [l] = line_shaped l"
| "wf_lines (l # l' # ls) = (line_shaped l \<and> is_lt (last l) \<and> wf_lines (l' # ls))"

lemma concat_js_lines: "concat (js_lines s) = s"
  by (induction s) (auto split: list.splits)

lemma js_lines_wf: "wf_lines (js_lines s)"
proof (induction s)
  case Nil
  show ?case by simp
next
  case (Cons c cs)
  show ?case
  proof (cases "is_lt c")
    case True
    with Cons show ?thesis by (cases "js_lines cs") (auto simp: line_shaped_def)
  next
    case False
    show ?thesis
    proof (cases "js_lines cs")
      case Nil
      with False show ?thesis by (simp add: line_shaped_def)
    next
      case (Cons l ls)
      with Cons.IH have l: "line_shaped l" by (cases ls) auto
      then have "line_shaped (c # l)" using False by (auto simp: line_shaped_def)
      moreover from l have "last (c # l) = last l" by (simp add: line_shaped_def)
      ultimately show ?thesis using Cons Cons.IH False by (cases ls) auto
    qed
  qed
qed

lemma wf_lines_tl: "wf_lines (l # ls) \<Longrightarrow> wf_lines ls"
  by (cases ls) auto

lemma wf_lines_hd: "wf_lines (l # ls) \<Longrightarrow> line_shaped l \<and> (ls \<noteq> [] \<longrightarrow> is_lt (last l))"
  by (cases ls) auto

lemma trim_core:
  assumes "\<forall>c\<in>set ws. is_space c" and "\<forall>c\<in>set t. is_space c" and "b \<noteq> []"
    and "\<not> is_space (hd b)"
  shows "trim (ws @ b @ t) = trim b"
proof -
  from assms(3,4) obtain c cs where b: "b = c # cs" "\<not> is_space c" by (cases b) auto
  have 1: "dropWhile is_space (ws @ b @ t) = b @ t"
    using assms(1) b by (simp add: dropWhile_append2)
  have 2: "dropWhile is_space b = b" using b by simp
  have "dropWhile is_space (rev t @ rev b) = dropWhile is_space (rev b)"
    by (rule dropWhile_append2) (use assms(2) in simp)
  then have "dropWhile is_space (rev (b @ t)) = dropWhile is_space (rev b)" by simp
  with 1 2 show ?thesis by (simp add: trim_def)
qed

lemma trim_Nil_iff: "trim s = [] \<longleftrightarrow> (\<forall>c\<in>set s. is_space c)"
proof
  assume "trim s = []"
  then have "dropWhile is_space (rev (dropWhile is_space s)) = []" by (simp add: trim_def)
  then have "\<forall>c\<in>set (rev (dropWhile is_space s)). is_space c"
    by (simp add: dropWhile_eq_Nil_conv)
  then have "dropWhile is_space s = []"
    by (metis dropWhile_eq_Nil_conv hd_dropWhile list.set_sel(1) set_rev)
  then show "\<forall>c\<in>set s. is_space c" by (simp add: dropWhile_eq_Nil_conv)
next
  assume "\<forall>c\<in>set s. is_space c"
  then show "trim s = []" by (auto simp: trim_def dest: set_dropWhileD)
qed

text \<open>The parts of a marked line with a body: marker, whitespace, body, terminator.\<close>

fun marker_of :: "jsstr \<Rightarrow> jsstr" where
  "marker_of [] = []"
| "marker_of (c # cs) = (if is_digit c then c # takeWhile is_digit cs @ [0x2E] else [c])"

definition ws_of :: "jsstr \<Rightarrow> jsstr" where
  "ws_of l = takeWhile is_space (drop_marker l)"

definition body_of :: "jsstr \<Rightarrow> jsstr" where
  "body_of l = takeWhile (\<lambda>c. \<not> is_lt c) (dropWhile is_space (drop_marker l))"

definition term_of :: "jsstr \<Rightarrow> jsstr" where
  "term_of l = dropWhile (\<lambda>c. \<not> is_lt c) (dropWhile is_space (drop_marker l))"

lemma after_digits_shape:
  "after_digits cs \<Longrightarrow> cs = takeWhile is_digit cs @ 0x2E # tl (dropWhile is_digit cs)"
proof (induction cs)
  case Nil
  then show ?case by simp
next
  case (Cons c cs)
  then show ?case by (cases "is_digit c") auto
qed

lemma drop_marker_parts: "drop_marker l = ws_of l @ body_of l @ term_of l"
  by (simp add: ws_of_def body_of_def term_of_def)

lemma marker_of_shape:
  assumes "marker_prefix l"
  shows "l = marker_of l @ drop_marker l"
    and "(\<exists>ds. marker_of l = ds @ [0x2E] \<and> ds \<noteq> [] \<and> (\<forall>c\<in>set ds. is_digit c)) \<or>
         marker_of l = [0x2D] \<and> ws_of l \<noteq> []"
proof -
  from assms obtain c cs where l: "l = c # cs" by (cases l) auto
  show "l = marker_of l @ drop_marker l"
  proof (cases "is_digit c")
    case True
    with assms l have "after_digits cs" by auto
    from after_digits_shape [OF this] True l show ?thesis by simp
  next
    case False
    with l show ?thesis by simp
  qed
  show "(\<exists>ds. marker_of l = ds @ [0x2E] \<and> ds \<noteq> [] \<and> (\<forall>c\<in>set ds. is_digit c)) \<or>
         marker_of l = [0x2D] \<and> ws_of l \<noteq> []"
  proof (cases "is_digit c")
    case True
    have "\<forall>d\<in>set (c # takeWhile is_digit cs). is_digit d"
      using True by (auto dest: set_takeWhileD)
    moreover have "marker_of l = (c # takeWhile is_digit cs) @ [0x2E]" using True l by simp
    ultimately have "\<exists>ds. marker_of l = ds @ [0x2E] \<and> ds \<noteq> [] \<and> (\<forall>c\<in>set ds. is_digit c)"
      by (intro exI [of _ "c # takeWhile is_digit cs"]) simp
    then show ?thesis by (rule disjI1)
  next
    case False
    with assms l obtain s0 cs' where c: "c = 0x2D" "cs = s0 # cs'" "is_space s0"
      by (auto split: list.splits)
    with False l have "marker_of l = [0x2D] \<and> ws_of l \<noteq> []" by (simp add: ws_of_def)
    then show ?thesis by (rule disjI2)
  qed
qed

lemma body_of_shape:
  assumes "line_body l \<noteq> []"
  shows "body_of l \<noteq> []" and "\<not> is_space (hd (body_of l))" and "\<forall>c\<in>set (body_of l). \<not> is_lt c"
    and "\<forall>c\<in>set (ws_of l). is_space c"
proof -
  define r where "r = dropWhile is_space (drop_marker l)"
  have "\<not> (\<forall>c\<in>set (drop_marker l). is_space c)"
    using assms by (simp add: line_body_def trim_Nil_iff)
  then have rne: "r \<noteq> []" by (simp add: r_def dropWhile_eq_Nil_conv)
  then have hr: "\<not> is_space (hd r)" unfolding r_def by (rule hd_dropWhile)
  then have nl: "\<not> is_lt (hd r)" using lt_space by blast
  from rne nl show "body_of l \<noteq> []" unfolding body_of_def r_def [symmetric] by (cases r) auto
  from rne nl have "hd (body_of l) = hd r" unfolding body_of_def r_def [symmetric] by (cases r) auto
  with hr show "\<not> is_space (hd (body_of l))" by simp
  show "\<forall>c\<in>set (body_of l). \<not> is_lt c" unfolding body_of_def by (auto dest: set_takeWhileD)
  show "\<forall>c\<in>set (ws_of l). is_space c" unfolding ws_of_def by (auto dest: set_takeWhileD)
qed

lemma term_of_shape:
  assumes m: "marker_prefix l" and sh: "line_shaped l"
  shows "term_of l = [] \<or> term_of l = [last l] \<and> is_lt (last l)"
proof (cases "term_of l")
  case Nil
  then show ?thesis by simp
next
  case (Cons x xs)
  define r where "r = dropWhile is_space (drop_marker l)"
  from Cons have "dropWhile (\<lambda>c. \<not> is_lt c) r \<noteq> []" by (simp add: term_of_def r_def)
  then have "\<not> \<not> is_lt (hd (dropWhile (\<lambda>c. \<not> is_lt c) r))" by (rule hd_dropWhile)
  with Cons have x: "is_lt x" by (simp add: term_of_def r_def)
  have lt: "l = (marker_of l @ ws_of l @ body_of l) @ x # xs"
    using marker_of_shape(1) [OF m] drop_marker_parts [of l] Cons by simp
  have "xs = []"
  proof (rule ccontr)
    assume "xs \<noteq> []"
    then have "butlast ((marker_of l @ ws_of l @ body_of l) @ x # xs)
      = (marker_of l @ ws_of l @ body_of l) @ x # butlast xs" by (simp add: butlast_append)
    with lt have "butlast l = (marker_of l @ ws_of l @ body_of l) @ x # butlast xs" by simp
    then have "x \<in> set (butlast l)" by simp
    with sh x show False by (auto simp: line_shaped_def)
  qed
  with lt have "last l = x" by (metis last_snoc append_assoc)
  with \<open>xs = []\<close> Cons x show ?thesis by simp
qed

lemma untermin_parts:
  assumes "l = m @ t" and "m \<noteq> []" and "\<not> is_lt (last m)" and "t = [] \<or> t = [last l] \<and> is_lt (last l)"
  shows "untermin l = m"
proof (cases "t = []")
  case True
  with assms show ?thesis by (simp add: untermin_def)
next
  case False
  with assms(4) have t: "t = [last l]" "is_lt (last l)" by auto
  with assms(1) have "butlast l = m" by (metis butlast_snoc)
  with t show ?thesis by (simp add: untermin_def)
qed

lemma marker_parts_match:
  assumes mk: "(\<exists>ds. mk = ds @ [0x2E] \<and> ds \<noteq> [] \<and> (\<forall>c\<in>set ds. is_digit c)) \<or> mk = [0x2D] \<and> ws \<noteq> []"
    and ws: "\<forall>c\<in>set ws. is_space c" and v: "v \<noteq> []" "\<not> is_space (hd v)"
    and k: "k (lastp (lastp prev mk) ws, v) = Some r"
  shows "rmatch marker k (prev, mk @ ws @ v) = Some r"
proof -
  from mk consider (num) ds where "mk = ds @ [0x2E]" "ds \<noteq> []" "\<forall>c\<in>set ds. is_digit c"
    | (hyp) "mk = [0x2D]" "ws \<noteq> []" by blast
  then show ?thesis
  proof cases
    case num
    from k num(1) have "k (lastp (Some 0x2E) ws, v) = Some r" by simp
    with num(2,3) ws v have "rmatch marker k (prev, ds @ 0x2E # ws @ v) = Some r"
      by (intro marker_number)
    with num(1) show ?thesis by simp
  next
    case hyp
    from k hyp(1) have "k (lastp (Some 0x2D) ws, v) = Some r" by simp
    with hyp(2) ws v have "rmatch marker k (prev, 0x2D # ws @ v) = Some r"
      by (intro marker_hyphen) auto
    with hyp(1) show ?thesis by simp
  qed
qed

lemma match_all_skip_many:
  "(\<And>i. i < length t \<Longrightarrow> match_at r (lastp prev (take i t), drop i t @ s) = None) \<Longrightarrow>
   match_all r prev (t @ s) = match_all r (lastp prev t) s"
proof (induction t arbitrary: prev)
  case Nil
  show ?case by simp
next
  case (Cons c t)
  from Cons.prems [of 0] have k0: "match_at r (prev, c # t @ s) = None" by simp
  have "match_at r (lastp (Some c) (take i t), drop i t @ s) = None" if "i < length t" for i
    using Cons.prems [of "Suc i"] that by simp
  with Cons.IH have "match_all r (Some c) (t @ s) = match_all r (lastp (Some c) t) s" by blast
  with match_all_skip [OF k0] show ?case by simp
qed

text \<open>The matches of the line pattern in a text made of well-formed lines.\<close>

lemma match_all_lines:
  "wf_lines ls \<Longrightarrow> at_line_start (prev, []) \<Longrightarrow>
   \<forall>l\<in>set ls. marker_prefix l \<longrightarrow> line_body l \<noteq> [] \<Longrightarrow>
   match_all bullet_re prev (concat ls) = map untermin (filter marker_prefix ls)"
proof (induction ls arbitrary: prev)
  case Nil
  show ?case by (simp add: match_all_Nil)
next
  case (Cons l ls)
  from wf_lines_hd [OF Cons.prems(1)] have sh: "line_shaped l" and tm: "ls \<noteq> [] \<longrightarrow> is_lt (last l)"
    by auto
  from Cons.prems(1) have wf: "wf_lines ls" by (rule wf_lines_tl)
  from sh have lne: "l \<noteq> []" by (simp add: line_shaped_def)
  have rest_cases: "concat ls = [] \<or> is_lt (last l)"
    using tm by (cases "ls = []") auto
  have next_lines: "match_all bullet_re (Some (last l)) (concat ls) = map untermin (filter marker_prefix ls)"
    if "is_lt (last l)"
    by (rule Cons.IH) (use wf that Cons.prems(3) in auto)
  show ?case
  proof (cases "marker_prefix l")
    case True
    with Cons.prems(3) have body: "line_body l \<noteq> []" by simp
    define mk where "mk = marker_of l"
    define ws where "ws = ws_of l"
    define b where "b = body_of l"
    define t where "t = term_of l"
    have l: "l = mk @ ws @ b @ t"
      using marker_of_shape(1) [OF True] drop_marker_parts [of l]
      by (simp add: mk_def ws_def b_def t_def)
    have mk: "(\<exists>ds. mk = ds @ [0x2E] \<and> ds \<noteq> [] \<and> (\<forall>c\<in>set ds. is_digit c)) \<or> mk = [0x2D] \<and> ws \<noteq> []"
      using marker_of_shape(2) [OF True] by (simp add: mk_def ws_def)
    have ws: "\<forall>c\<in>set ws. is_space c" and b: "b \<noteq> []" "\<not> is_space (hd b)" "\<forall>c\<in>set b. \<not> is_lt c"
      using body_of_shape [OF body] by (simp_all add: ws_def b_def)
    have t: "t = [] \<or> t = [last l] \<and> is_lt (last l)"
      using term_of_shape [OF True sh] by (simp add: t_def)
    define rest where "rest = t @ concat ls"
    have lastb: "\<not> is_lt (last b)" using b(1,3) by simp
    have rest: "rest = [] \<or> is_lt (hd rest)"
    proof (cases "t = []")
      case True
      with l b(1) have "last l = last b" by simp
      with lastb rest_cases True show ?thesis by (simp add: rest_def)
    next
      case False
      with t show ?thesis by (auto simp: rest_def)
    qed
    have k: "rmatch (Seq (Star is_dot) Line_end) Some (lastp (lastp prev mk) ws, b @ rest)
             = Some (lastp (lastp (lastp prev mk) ws) b, rest)"
      using b(3) rest by (rule line_rest)
    have "rmatch marker (rmatch (Seq (Star is_dot) Line_end) Some) (prev, mk @ ws @ (b @ rest))
          = Some (lastp (lastp (lastp prev mk) ws) b, rest)"
      by (rule marker_parts_match) (use mk ws b k in auto)
    moreover have "at_line_start (prev, mk @ ws @ b @ rest)"
      using Cons.prems(2) by (cases prev) auto
    ultimately have "match_at bullet_re (prev, (mk @ ws @ b) @ rest) = Some (Some (last b), rest)"
      using b(1) by (simp add: match_at_def bullet_re_def lastp_def)
    from exec_here [OF this]
    have e: "exec bullet_re prev (mk @ ws @ b @ rest) = Some ([], mk @ ws @ b, (Some (last b), rest))"
      by simp
    have m: "match_all bullet_re prev (mk @ ws @ b @ rest)
      = (mk @ ws @ b) # match_all bullet_re (Some (last b)) rest"
      by (subst match_all.simps) (use e b(1) in simp)
    have u: "untermin l = mk @ ws @ b"
      by (rule untermin_parts [where t = t]) (use l b lastb t in auto)
    have "match_all bullet_re (Some (last b)) rest = map untermin (filter marker_prefix ls)"
    proof (cases "t = []")
      case True
      with l b(1) have "last l = last b" by simp
      with lastb rest_cases have "concat ls = []" by simp
      moreover from this tm \<open>last l = last b\<close> lastb have "ls = []" by auto
      ultimately show ?thesis using True by (simp add: rest_def match_all_Nil)
    next
      case False
      with t have t': "t = [last l]" "is_lt (last l)" by auto
      have "match_at bullet_re (Some (last b), last l # concat ls) = None"
        using bullet_SomeD [of "Some (last b)" "last l # concat ls"] lastb
        by (cases "match_at bullet_re (Some (last b), last l # concat ls)") auto
      then have "match_all bullet_re (Some (last b)) (last l # concat ls)
        = match_all bullet_re (Some (last l)) (concat ls)" by (rule match_all_skip)
      with next_lines [OF t'(2)] t' show ?thesis by (simp add: rest_def)
    qed
    with m u l True show ?thesis by (simp add: rest_def)
  next
    case False
    have none: "match_at bullet_re (lastp prev (take i l), drop i l @ concat ls) = None"
      if i: "i < length l" for i
    proof (cases "match_at bullet_re (lastp prev (take i l), drop i l @ concat ls)")
      case None
      then show ?thesis .
    next
      case (Some e)
      from bullet_SomeD [OF Some] have st: "at_line_start (lastp prev (take i l), drop i l @ concat ls)"
        and sm: "marker_prefix (drop i l @ concat ls)" by auto
      show ?thesis
      proof (cases i)
        case 0
        with sm have "marker_prefix (l @ concat ls)" by simp
        from marker_prefix_cut [OF this lne rest_cases] False show ?thesis by simp
      next
        case (Suc j)
        with i have "take i l \<noteq> []" using lne by (cases l) auto
        moreover have "last (take i l) \<in> set (butlast l)"
        proof -
          from i Suc have "last (take i l) = l ! j"
            by (metis Suc_lessD diff_Suc_1 last_conv_nth length_take lessI min.absorb4 nth_take take_eq_Nil zero_less_Suc less_nat_zero_code list.size(3))
          moreover from i Suc have "j < length (butlast l)" by simp
          then have "butlast l ! j \<in> set (butlast l)" by (rule nth_mem)
          moreover from i Suc have "butlast l ! j = l ! j" by (simp add: nth_butlast)
          ultimately show ?thesis by simp
        qed
        ultimately have "\<not> at_line_start (lastp prev (take i l), drop i l @ concat ls)"
          using sh by (auto simp: lastp_def line_shaped_def)
        with st show ?thesis by simp
      qed
    qed
    have sk: "match_all bullet_re prev (l @ concat ls) = match_all bullet_re (lastp prev l) (concat ls)"
      by (rule match_all_skip_many) (use none in blast)
    have "match_all bullet_re (lastp prev l) (concat ls) = map untermin (filter marker_prefix ls)"
    proof (cases "is_lt (last l)")
      case True
      with next_lines lne show ?thesis by (simp add: lastp_def)
    next
      case nt: False
      with tm have "ls = []" by auto
      then show ?thesis by (simp add: match_all_Nil)
    qed
    with sk False show ?thesis by simp
  qed
qed

lemma strip_marked_line:
  assumes m: "marker_prefix l" and sh: "line_shaped l" and body: "line_body l \<noteq> []"
  shows "trim (replace_first marker_re (untermin l)) = line_body l"
proof -
  define mk where "mk = marker_of l"
  define ws where "ws = ws_of l"
  define b where "b = body_of l"
  define t where "t = term_of l"
  have dm: "drop_marker l = ws @ b @ t"
    using drop_marker_parts [of l] by (simp add: ws_def b_def t_def)
  have l: "l = mk @ ws @ b @ t"
    using marker_of_shape(1) [OF m] dm by (simp add: mk_def)
  have mk: "(\<exists>ds. mk = ds @ [0x2E] \<and> ds \<noteq> [] \<and> (\<forall>c\<in>set ds. is_digit c)) \<or> mk = [0x2D] \<and> ws \<noteq> []"
    using marker_of_shape(2) [OF m] by (simp add: mk_def ws_def)
  have ws: "\<forall>c\<in>set ws. is_space c" and b: "b \<noteq> []" "\<not> is_space (hd b)" "\<forall>c\<in>set b. \<not> is_lt c"
    using body_of_shape [OF body] by (simp_all add: ws_def b_def)
  have t: "t = [] \<or> t = [last l] \<and> is_lt (last l)"
    using term_of_shape [OF m sh] by (simp add: t_def)
  have lastb: "\<not> is_lt (last b)" using b(1,3) by simp
  have u: "untermin l = mk @ ws @ b"
    by (rule untermin_parts [where t = t]) (use l b lastb t in auto)
  have "rmatch marker Some (None, mk @ ws @ b) = Some (lastp (lastp None mk) ws, b)"
    by (rule marker_parts_match) (use mk ws b in auto)
  then have "match_at marker_re (None, mk @ ws @ b) = Some (lastp (lastp None mk) ws, b)"
    by (simp add: match_at_def marker_re_def)
  from exec_here [OF this] have "replace_first marker_re (mk @ ws @ b) = b"
    by (simp add: replace_first_def)
  moreover have "\<forall>c\<in>set t. is_space c" using t lt_space by auto
  then have "trim (ws @ b @ t) = trim b" using ws b by (intro trim_core) auto
  ultimately show ?thesis using u dm by (simp add: line_body_def)
qed

lemma wf_lines_line_shaped: "wf_lines ls \<Longrightarrow> l \<in> set ls \<Longrightarrow> line_shaped l"
proof (induction ls)
  case Nil
  then show ?case by simp
next
  case (Cons x xs)
  then show ?case using wf_lines_hd [of x xs] wf_lines_tl [of x xs] by auto
qed

text \<open>
  Where every marked line has a body on its own line and no line is a bare marker, the
  extractor does what the specification says: the bodies of the marked lines, in order.
\<close>

lemma scan_bullets_kept_bodies:
  assumes "\<forall>l\<in>set (js_lines s). (marked_line l \<longrightarrow> line_body l \<noteq> []) \<and> \<not> bare_marker l"
  shows "scan_bullets s = kept_bodies s"
proof -
  have eq: "marker_prefix l \<longleftrightarrow> marked_line l" if "l \<in> set (js_lines s)" for l
    using that assms marker_prefix_iff_marked by blast
  then have f: "filter marker_prefix (js_lines s) = filter marked_line (js_lines s)"
    by (intro filter_cong) auto
  from eq assms have b: "\<forall>l\<in>set (js_lines s). marker_prefix l \<longrightarrow> line_body l \<noteq> []" by blast
  have "match_all bullet_re None (concat (js_lines s)) = map untermin (filter marker_prefix (js_lines s))"
    by (rule match_all_lines) (use js_lines_wf b in auto)
  then have "scan_bullets s
    = map (\<lambda>l. trim (replace_first marker_re (untermin l))) (filter marker_prefix (js_lines s))"
    by (simp add: scan_bullets_def concat_js_lines comp_def)
  also have "\<dots> = map line_body (filter marker_prefix (js_lines s))"
  proof (rule map_cong [OF refl])
    fix l assume "l \<in> set (filter marker_prefix (js_lines s))"
    then have "marker_prefix l" "l \<in> set (js_lines s)" by auto
    with b wf_lines_line_shaped [OF js_lines_wf] show
      "trim (replace_first marker_re (untermin l)) = line_body l"
      by (intro strip_marked_line) auto
  qed
  finally show ?thesis by (simp add: kept_bodies_def f)
qed

lemma extractBulletPoints_kept_bodies:
  "\<forall>l\<in>set (js_lines (remove_think s)).
     (marked_line l \<longrightarrow> line_body l \<noteq> []) \<and> \<not> bare_marker l \<Longrightarrow>
   extractBulletPoints s = kept_bodies (remove_think s)"
  by (simp add: extractBulletPoints_def scan_bullets_kept_bodies)

section \<open>Settings, chat messages and the page\<close>

datatype extraction = Bullet | NoExtraction

record PromptPreset =
  content :: jsstr
  extractionStrategy :: extraction
  impersonate :: "jsstr option"

datatype max_context_type = Profile | Sampler | Custom

datatype role = User | System | Assistant

text \<open>
  \<open>promptPresets\<close> is the object \<^verbatim>\<open>Record<string, PromptPreset>\<close>, a plain JavaScript
  object. What a read of one of its properties gives is \<^verbatim>\<open>undefined\<close> (or \<^verbatim>\<open>null\<close>),
  or a value, known by the three properties that the source reads of it: its content,
  its extraction strategy and its impersonation text, each of which it may lack. A
  preset has the first two. A member that every object inherits from
  \<^verbatim>\<open>Object.prototype\<close>, such as \<^verbatim>\<open>constructor\<close>, is a value that has none of the three
  unless it was given one.
\<close>

datatype jsvalue = Undefined | Value "jsstr option" "extraction option" "jsstr option"

fun preset_of :: "jsvalue \<Rightarrow> PromptPreset option" where
  "preset_of (Value (Some c) (Some e) i) =
     Some \<lparr>content = c, extractionStrategy = e, impersonate = i\<rparr>"
| "preset_of _ = None"

definition of_preset :: "PromptPreset \<Rightarrow> jsvalue" where
  "of_preset p = Value (Some (content p)) (Some (extractionStrategy p)) (impersonate p)"

text \<open>
  The settings. \<open>own_promptPresets\<close> holds the own properties of the object
  \<open>promptPresets\<close>: its keys, with what each of them holds.
\<close>

record ExtensionSettings =
  profileId :: jsstr
  maxContextType :: max_context_type
  maxContextValue :: nat
  maxResponseToken :: nat
  promptPreset :: jsstr
  autoOpen :: bool
  own_promptPresets :: "jsstr \<rightharpoonup> jsvalue"
  showUseActionIcon :: bool
  messageRole :: role

text \<open>The preset mapping: the keys that hold a preset, each with its preset.\<close>

definition promptPresets :: "ExtensionSettings \<Rightarrow> jsstr \<rightharpoonup> PromptPreset" where
  "promptPresets s k = Option.bind (own_promptPresets s k) preset_of"

text \<open>
  The three accesses to a property of \<open>promptPresets\<close> that the source makes.

  \<^verbatim>\<open>settings.promptPresets[k]\<close> gives what the key holds when the object has the key,
  and otherwise what the object inherits under that name: \<open>inherited\<close> stands for the
  prototype chain of the object, which belongs to the engine (\<^verbatim>\<open>Object.prototype\<close>, or
  what an assignment to \<^verbatim>\<open>__proto__\<close> has put in its place).

  \<^verbatim>\<open>settings.promptPresets[k] = v\<close> sets the key, except for the name \<^verbatim>\<open>__proto__\<close>
  when it is not a key of the object: that assignment reaches the setter which the
  object inherits, which replaces the prototype of the object and creates no key.

  \<^verbatim>\<open>delete settings.promptPresets[k]\<close> removes the key.
\<close>

definition js_get :: "(jsstr \<Rightarrow> jsvalue) \<Rightarrow> ExtensionSettings \<Rightarrow> jsstr \<Rightarrow> jsvalue" where
  "js_get inherited s k =
     (case own_promptPresets s k of Some v \<Rightarrow> v | None \<Rightarrow> inherited k)"

definition js_set :: "jsstr \<Rightarrow> jsvalue \<Rightarrow> ExtensionSettings \<Rightarrow> ExtensionSettings" where
  "js_set k v s =
     (if k = str ''__proto__'' \<and> own_promptPresets s k = None then s
      else s\<lparr>own_promptPresets := (own_promptPresets s)(k \<mapsto> v)\<rparr>)"

definition js_delete :: "jsstr \<Rightarrow> ExtensionSettings \<Rightarrow> ExtensionSettings" where
  "js_delete k s = s\<lparr>own_promptPresets := (own_promptPresets s)(k := None)\<rparr>"


fun extractionStrategy_of :: "jsvalue \<Rightarrow> extraction option" where
  "extractionStrategy_of Undefined = None"
| "extractionStrategy_of (Value c e i) = e"


text \<open>
  What a plain object inherits in a current engine: the members of
  \<^verbatim>\<open>Object.prototype\<close>, none of which has one of the three properties.
\<close>

definition object_prototype :: "jsstr \<Rightarrow> jsvalue" where
  "object_prototype k =
     (if k \<in> set (map str
          [''constructor'', ''__proto__'', ''hasOwnProperty'', ''isPrototypeOf'',
           ''propertyIsEnumerable'', ''toLocaleString'', ''toString'', ''valueOf'',
           ''__defineGetter__'', ''__defineSetter__'', ''__lookupGetter__'',
           ''__lookupSetter__''])
      then Value None None None else Undefined)"

text \<open>
  \<open>message.extra\<close> with the three keys of \<^verbatim>\<open>KEYS.EXTRA\<close>. The stored option list is a
  JavaScript array: a position written beyond its end leaves holes (\<open>None\<close>) behind.
\<close>

record roadway_extra =
  isSmallSys :: bool
  roadway_target_chat :: "nat option"
  roadway_raw_content :: "jsstr option"
  roadway_options :: "jsstr option list option"

text \<open>
  What \<open>formatResponse\<close> builds, kept as a structure instead of the serialised HTML: a
  \<^verbatim>\<open>details\<close> element with the class prefix of its children, holding either one row
  per option (the text of the row and whether its use button is shown) or one
  preformatted block.
\<close>

record option_row =
  use_shown :: bool
  option_text :: jsstr

datatype details_body = Options "option_row list" | Pre jsstr

datatype markup = Details jsstr details_body

datatype message_text = Text jsstr | Html markup

record ChatMessage =
  mes :: message_text
  name :: jsstr
  force_avatar :: "jsstr option"
  original_avatar :: "jsstr option"
  is_system :: bool
  is_user :: bool
  extra :: "roadway_extra option"

datatype level = Echo_error | Echo_warning | Echo_info

record prompt_message =
  msg_content :: jsstr
  msg_role :: role

datatype max_context = Tokens nat | Of_preset | Of_active

text \<open>
  The arguments of the two host requests. Of \<open>buildPrompt\<close> the message bound and the
  context policy are kept; the API, the names taken from the connection profile and the
  character are host configuration that is passed through.
\<close>

record build_call =
  messages_end :: nat
  maxContext :: max_context

record request =
  req_profile :: jsstr
  req_messages :: "prompt_message list"
  req_max_tokens :: nat

text \<open>
  The state the extension reads and writes: its settings, the chat of the host, the set
  \<open>pendingRequests\<close>, the busy indicator (the class \<^verbatim>\<open>spinning\<close>), and what it has sent
  out, in order: notices (\<open>st_echo\<close>), console errors, host requests, messages handed to
  \<open>addOneMessage\<close>, handler attachments and the number of \<open>saveChat\<close> calls. Of the page,
  the markup written into a message's text element, the opened \<^verbatim>\<open>details\<close> and the
  texts written into option rows (message, row index, text) are kept.
\<close>

record state =
  settings :: ExtensionSettings
  chat :: "ChatMessage list"
  pendingRequests :: "nat set"
  spinning :: bool
  echoes :: "(level \<times> jsstr) list"
  console :: "jsstr list"
  built :: "build_call list"
  sent :: "request list"
  added :: "(ChatMessage \<times> nat) list"
  dom_text :: "nat \<rightharpoonup> markup"
  dom_open :: "nat set"
  attached :: "nat list"
  row_texts :: "(nat \<times> int \<times> jsstr) list"
  saves :: nat

text \<open>
  The host: what its services answer. An awaited call resolves (\<open>Inr\<close>, or no error) or
  rejects with an error, kept as the text that \<^verbatim>\<open>`${error}`\<close> gives.
  \<open>substituteParams_undefined\<close> is what \<open>substituteParams\<close> does when it is handed
  \<^verbatim>\<open>undefined\<close>: it returns a text or throws. \<open>prototype_chain\<close> is what the object
  \<open>promptPresets\<close> inherits in the engine of the host.
\<close>

record host =
  substituteParams :: "jsstr \<Rightarrow> jsstr"
  substituteParams_undefined :: "jsstr + jsstr"
  prototype_chain :: "jsstr \<Rightarrow> jsvalue"
  buildPrompt :: "build_call \<Rightarrow> jsstr + prompt_message list"
  sendRequest :: "request \<Rightarrow> jsstr + jsstr"
  saveChat :: "ChatMessage list \<Rightarrow> jsstr option"
  systemUserName :: jsstr
  system_avatar :: jsstr

section \<open>The generation flow\<close>

definition formatResponse :: "bool \<Rightarrow> jsstr \<Rightarrow> jsstr list option \<Rightarrow> jsstr \<Rightarrow> markup" where
  "formatResponse showUse response options classPrefix =
     (case options of
        Some (x # xs) \<Rightarrow>
          Details classPrefix
            (Options (map (\<lambda>option. \<lparr>use_shown = showUse, option_text = option\<rparr>) (x # xs)))
      | _ \<Rightarrow> Details classPrefix (Pre response))"

text \<open>
  \<open>generateRoadway\<close> is an async function: it runs until it awaits a host call and goes
  on when the call has resolved. A flow is where such a call of \<open>generateRoadway\<close>
  waits, with the local variables it still needs.
\<close>

datatype flow =
    Finished
  | Await_echo_return
  | Await_echo_duplicate nat
  | Await_buildPrompt nat build_call
  | Await_sendRequest nat request
  | Await_echo_empty nat jsstr
  | Await_saveChat nat
  | Await_echo_error nat

definition st_echo :: "level \<Rightarrow> jsstr \<Rightarrow> state \<Rightarrow> state" where
  "st_echo lvl msg st = st\<lparr>echoes := echoes st @ [(lvl, msg)]\<rparr>"

text \<open>The \<^verbatim>\<open>catch\<close> block up to its await, and the \<^verbatim>\<open>finally\<close> block.\<close>

definition catch_block :: "nat \<Rightarrow> jsstr \<Rightarrow> state \<Rightarrow> flow \<times> state" where
  "catch_block targetMessageId e st =
     (Await_echo_error targetMessageId,
      st_echo Echo_error (str ''Error: '' @ e) (st\<lparr>console := console st @ [e]\<rparr>))"

definition finally_block :: "nat \<Rightarrow> state \<Rightarrow> state" where
  "finally_block targetMessageId st =
     st\<lparr>pendingRequests := pendingRequests st - {targetMessageId}, spinning := False\<rparr>"

text \<open>
  The error of reading the property \<^verbatim>\<open>content\<close> of \<^verbatim>\<open>undefined\<close>, as \<^verbatim>\<open>`${error}`\<close>
  gives it in the wording of V8.
\<close>

definition type_error :: jsstr where
  "type_error =
     str ''TypeError: Cannot read properties of undefined (reading '' @ [0x27] @
     str ''content'' @ [0x27] @ str '')''"

definition build_call_of :: "ExtensionSettings \<Rightarrow> nat \<Rightarrow> build_call" where
  "build_call_of s targetMessageId =
     \<lparr>messages_end = targetMessageId,
      maxContext =
        (if maxContextType s = Custom then Tokens (maxContextValue s)
         else if maxContextType s = Profile then Of_preset else Of_active)\<rparr>"

definition request_of :: "host \<Rightarrow> ExtensionSettings \<Rightarrow> PromptPreset \<Rightarrow> prompt_message list \<Rightarrow> request" where
  "request_of h s preset messages =
     \<lparr>req_profile = profileId s,
      req_messages =
        messages @ [\<lparr>msg_content = substituteParams h (content preset), msg_role = messageRole s\<rparr>],
      req_max_tokens = maxResponseToken s\<rparr>"

text \<open>
  The same request for a prompt text that is already substituted, and
  \<^verbatim>\<open>context.substituteParams(c)\<close> for a content \<open>c\<close> that may be \<^verbatim>\<open>undefined\<close>.
\<close>

definition request_with :: "ExtensionSettings \<Rightarrow> prompt_message list \<Rightarrow> jsstr \<Rightarrow> request" where
  "request_with s messages prompt =
     \<lparr>req_profile = profileId s,
      req_messages = messages @ [\<lparr>msg_content = prompt, msg_role = messageRole s\<rparr>],
      req_max_tokens = maxResponseToken s\<rparr>"

definition substituted :: "host \<Rightarrow> jsstr option \<Rightarrow> jsstr + jsstr" where
  "substituted h c =
     (case c of None \<Rightarrow> substituteParams_undefined h | Some t \<Rightarrow> Inr (substituteParams h t))"

text \<open>\<^verbatim>\<open>settings.promptPresets[settings.promptPreset]?.extractionStrategy\<close>\<close>

definition strategy_of :: "host \<Rightarrow> ExtensionSettings \<Rightarrow> extraction option" where
  "strategy_of h s = extractionStrategy_of (js_get (prototype_chain h) s (promptPreset s))"

text \<open>Lines 331 to 364: from the call to the first await.\<close>

definition start :: "nat \<Rightarrow> state \<Rightarrow> flow \<times> state" where
  "start targetMessageId st =
     (if profileId (settings st) = []
      then (Await_echo_return,
            st_echo Echo_error (str ''Please select a connection profile first in the settings.'') st)
      else if promptPreset (settings st) = []
      then (Await_echo_return,
            st_echo Echo_error (str ''Please enter a prompt first in the settings.'') st)
      else if \<not> targetMessageId < length (chat st)
      then (Finished, st)
      else if targetMessageId \<in> pendingRequests st
      then (Await_echo_duplicate targetMessageId,
            st_echo Echo_warning
              (str ''A request for this message is already in progress. Please wait.'') st)
      else (Await_buildPrompt targetMessageId (build_call_of (settings st) targetMessageId),
            st\<lparr>pendingRequests := insert targetMessageId (pendingRequests st),
               spinning := True,
               built := built st @ [build_call_of (settings st) targetMessageId]\<rparr>))"

text \<open>\<^verbatim>\<open>context.chat.find((mes) => mes.extra?.[KEYS.EXTRA.TARGET] === targetMessageId)\<close>\<close>

definition is_annotation_of :: "nat \<Rightarrow> ChatMessage \<Rightarrow> bool" where
  "is_annotation_of targetMessageId m =
     (case extra m of
        None \<Rightarrow> False
      | Some x \<Rightarrow> roadway_target_chat x = Some targetMessageId)"

fun find_index_from :: "nat \<Rightarrow> ('a \<Rightarrow> bool) \<Rightarrow> 'a list \<Rightarrow> nat option" where
  "find_index_from i P [] = None"
| "find_index_from i P (x # xs) = (if P x then Some i else find_index_from (Suc i) P xs)"

text \<open>Lines 401 to 438: the display text, the annotation, the page, and the save.\<close>

definition upsert :: "host \<Rightarrow> nat \<Rightarrow> jsstr \<Rightarrow> jsstr list \<Rightarrow> extraction option \<Rightarrow> state \<Rightarrow> flow \<times> state" where
  "upsert h targetMessageId rest_content actions strategy st =
     (let innerText = (if actions \<noteq> [] then innerText_of actions else rest_content);
          options = (if strategy = Some Bullet then Some actions else None);
          showUse = showUseActionIcon (settings st);
          st1 =
            (case find_index_from 0 (is_annotation_of targetMessageId) (chat st) of
               None \<Rightarrow>
                 (let newMessage =
                        \<lparr>mes = Html (formatResponse showUse innerText options []),
                         name = systemUserName h,
                         force_avatar = Some (system_avatar h),
                         original_avatar = None,
                         is_system = True,
                         is_user = False,
                         extra = Some
                           \<lparr>isSmallSys = True,
                            roadway_target_chat = Some targetMessageId,
                            roadway_raw_content = Some innerText,
                            roadway_options = Some (map Some actions)\<rparr>\<rparr>
                  in st\<lparr>chat := chat st @ [newMessage],
                         added := added st @ [(newMessage, targetMessageId)]\<rparr>)
             | Some i \<Rightarrow>
                 (let existMessage = chat st ! i;
                      newMessage =
                        existMessage
                          \<lparr>mes := Html (formatResponse showUse innerText options []),
                           extra :=
                             map_option
                               (\<lambda>x. x\<lparr>roadway_raw_content := Some rest_content,
                                        roadway_options := Some (map Some actions)\<rparr>)
                               (extra existMessage)\<rparr>
                  in st\<lparr>chat := (chat st)[i := newMessage],
                         dom_text := (dom_text st)(targetMessageId + 1 \<mapsto>
                           formatResponse showUse innerText options (str ''custom-''))\<rparr>));
          st2 =
            (if autoOpen (settings st1) \<and> targetMessageId + 1 \<notin> dom_open st1
             then st1\<lparr>dom_open := insert (targetMessageId + 1) (dom_open st1)\<rparr>
             else st1);
          st3 = st2\<lparr>attached := attached st2 @ [targetMessageId + 1]\<rparr>
      in (Await_saveChat targetMessageId, st3\<lparr>saves := saves st3 + 1\<rparr>))"

text \<open>What \<open>generateRoadway\<close> does when the call it waits for has resolved.\<close>

fun resume :: "host \<Rightarrow> flow \<Rightarrow> state \<Rightarrow> flow \<times> state" where
  "resume h Finished st = (Finished, st)"
| "resume h Await_echo_return st = (Finished, st)"
| "resume h (Await_echo_duplicate targetMessageId) st =
     (Finished, finally_block targetMessageId st)"
| "resume h (Await_buildPrompt targetMessageId call) st =
     (case buildPrompt h call of
        Inl e \<Rightarrow> catch_block targetMessageId e st
      | Inr messages \<Rightarrow>
          (case js_get (prototype_chain h) (settings st) (promptPreset (settings st)) of
             Undefined \<Rightarrow> catch_block targetMessageId type_error st
           | Value c e i \<Rightarrow>
               (case substituted h c of
                  Inl err \<Rightarrow> catch_block targetMessageId err st
                | Inr prompt \<Rightarrow>
                    (Await_sendRequest targetMessageId (request_with (settings st) messages prompt),
                     st\<lparr>sent := sent st @ [request_with (settings st) messages prompt]\<rparr>))))"
| "resume h (Await_sendRequest targetMessageId req) st =
     (case sendRequest h req of
        Inl e \<Rightarrow> catch_block targetMessageId e st
      | Inr rest_content \<Rightarrow>
          (let extractionStrategy = strategy_of h (settings st)
           in if extractionStrategy = Some Bullet
              then (if extractBulletPoints rest_content = []
                    then (Await_echo_empty targetMessageId rest_content,
                          st_echo Echo_warning
                            (str ''Could not extract any bullet points from the response. Using original response.'')
                            st)
                    else upsert h targetMessageId rest_content
                           (extractBulletPoints rest_content) extractionStrategy st)
              else upsert h targetMessageId rest_content [] extractionStrategy st))"
| "resume h (Await_echo_empty targetMessageId rest_content) st =
     upsert h targetMessageId rest_content [] (Some Bullet) st"
| "resume h (Await_saveChat targetMessageId) st =
     (case saveChat h (chat st) of
        Some e \<Rightarrow> catch_block targetMessageId e st
      | None \<Rightarrow> (Finished, finally_block targetMessageId st))"
| "resume h (Await_echo_error targetMessageId) st =
     (Finished, finally_block targetMessageId st)"

text \<open>The awaits still ahead of a flow, at most.\<close>

fun awaits_left :: "flow \<Rightarrow> nat" where
  "awaits_left Finished = 0"
| "awaits_left Await_echo_return = 1"
| "awaits_left (Await_echo_duplicate _) = 1"
| "awaits_left (Await_buildPrompt _ _) = 6"
| "awaits_left (Await_sendRequest _ _) = 5"
| "awaits_left (Await_echo_empty _ _) = 4"
| "awaits_left (Await_saveChat _) = 3"
| "awaits_left (Await_echo_error _) = 1"

lemma awaits_left_resume:
  "f \<noteq> Finished \<Longrightarrow> awaits_left (fst (resume h f st)) < awaits_left f"
  by (cases f)
    (auto simp: catch_block_def upsert_def Let_def split: sum.splits option.splits jsvalue.splits)

text \<open>
  A flow that nothing interleaves with: every awaited call resolves as the host says,
  until the flow has finished. \<open>generateRoadway\<close> is the whole call.
\<close>

function run :: "host \<Rightarrow> flow \<times> state \<Rightarrow> state" where
  "run h (f, st) = (if f = Finished then st else run h (resume h f st))"
  by pat_completeness auto
termination
  by (relation "measure (\<lambda>(h, f, st). awaits_left f)")
    (auto simp: case_prod_unfold awaits_left_resume)

declare run.simps [simp del]

definition generateRoadway :: "host \<Rightarrow> nat \<Rightarrow> state \<Rightarrow> state" where
  "generateRoadway h targetMessageId st = run h (start targetMessageId st)"

section \<open>Properties of the generation flow\<close>

lemma run_Finished [simp]: "run h (Finished, st) = st"
  by (simp add: run.simps)

lemma run_step: "f \<noteq> Finished \<Longrightarrow> run h (f, st) = run h (resume h f st)"
  by (simp add: run.simps)

text \<open>The state in which a flow ends that threw \<open>e\<close>: caught, reported, cleaned up.\<close>

definition failed_with :: "nat \<Rightarrow> jsstr \<Rightarrow> state \<Rightarrow> state" where
  "failed_with targetMessageId e st = finally_block targetMessageId (snd (catch_block targetMessageId e st))"

lemma run_catch_block: "run h (catch_block i e st) = failed_with i e st"
  by (simp add: catch_block_def failed_with_def run_step)

lemma run_saveChat:
  "run h (Await_saveChat i, st) =
     (case saveChat h (chat st) of Some e \<Rightarrow> failed_with i e st | None \<Rightarrow> finally_block i st)"
  by (simp add: run_step run_catch_block split: option.splits)

lemma fst_upsert [simp]: "fst (upsert h i c a s st) = Await_saveChat i"
  by (simp add: upsert_def Let_def)

lemma run_upsert:
  "run h (upsert h i c a s st) =
     (case saveChat h (chat (snd (upsert h i c a s st))) of
        Some e \<Rightarrow> failed_with i e (snd (upsert h i c a s st))
      | None \<Rightarrow> finally_block i (snd (upsert h i c a s st)))"
proof -
  have "upsert h i c a s st = (Await_saveChat i, snd (upsert h i c a s st))"
    by (metis fst_upsert prod.collapse)
  then have "run h (upsert h i c a s st) = run h (Await_saveChat i, snd (upsert h i c a s st))"
    by simp
  then show ?thesis by (simp only: run_saveChat)
qed

text \<open>What is left of the flow once the response has arrived.\<close>

definition extracted :: "extraction option \<Rightarrow> jsstr \<Rightarrow> jsstr list" where
  "extracted strategy rest_content =
     (if strategy = Some Bullet then extractBulletPoints rest_content else [])"

definition warned :: "extraction option \<Rightarrow> jsstr \<Rightarrow> state \<Rightarrow> state" where
  "warned strategy rest_content st =
     (if strategy = Some Bullet \<and> extractBulletPoints rest_content = []
      then st_echo Echo_warning
        (str ''Could not extract any bullet points from the response. Using original response.'') st
      else st)"

lemma run_sendRequest:
  "run h (Await_sendRequest i req, st) =
     (case sendRequest h req of
        Inl e \<Rightarrow> failed_with i e st
      | Inr c \<Rightarrow>
          (let s = strategy_of h (settings st)
           in run h (upsert h i c (extracted s c) s (warned s c st))))"
proof (cases "sendRequest h req")
  case (Inl e)
  then show ?thesis by (simp add: run_step run_catch_block)
next
  case (Inr c)
  let ?s = "strategy_of h (settings st)"
  show ?thesis
  proof (cases "?s = Some Bullet")
    case False
    with Inr show ?thesis by (simp add: run_step Let_def extracted_def warned_def)
  next
    case True
    show ?thesis
    proof (cases "extractBulletPoints c = []")
      case False
      with True Inr show ?thesis by (simp add: run_step Let_def extracted_def warned_def)
    next
      case e: True
      have "run h (Await_sendRequest i req, st)
        = run h (Await_echo_empty i c, st_echo Echo_warning
            (str ''Could not extract any bullet points from the response. Using original response.'') st)"
        using True Inr e by (simp add: run_step Let_def)
      also have "\<dots> = run h (upsert h i c [] (Some Bullet) (st_echo Echo_warning
            (str ''Could not extract any bullet points from the response. Using original response.'') st))"
        by (simp add: run_step)
      finally show ?thesis using True Inr e by (simp add: Let_def extracted_def warned_def)
    qed
  qed
qed

lemma run_buildPrompt:
  "run h (Await_buildPrompt i call, st) =
     (case buildPrompt h call of
        Inl e \<Rightarrow> failed_with i e st
      | Inr ms \<Rightarrow>
          (case js_get (prototype_chain h) (settings st) (promptPreset (settings st)) of
             Undefined \<Rightarrow> failed_with i type_error st
           | Value c e x \<Rightarrow>
               (case substituted h c of
                  Inl err \<Rightarrow> failed_with i err st
                | Inr prompt \<Rightarrow>
                    run h (Await_sendRequest i (request_with (settings st) ms prompt),
                           st\<lparr>sent := sent st @ [request_with (settings st) ms prompt]\<rparr>))))"
  by (simp add: run_step run_catch_block split: sum.splits jsvalue.splits)

text \<open>A key that holds a preset reads as that preset, whatever the object inherits.\<close>

lemma js_get_preset:
  "promptPresets s k = Some p \<Longrightarrow>
   js_get inherited s k = Value (Some (content p)) (Some (extractionStrategy p)) (impersonate p)"
  by (auto simp: promptPresets_def js_get_def split: option.splits elim!: preset_of.elims)

lemma request_with_preset:
  "request_with s ms (substituteParams h (content p)) = request_of h s p ms"
  by (simp add: request_with_def request_of_def)

lemma strategy_of_preset:
  "promptPresets s (promptPreset s) = Some p \<Longrightarrow> strategy_of h s = Some (extractionStrategy p)"
  by (simp add: strategy_of_def js_get_preset)

lemma run_buildPrompt_preset:
  assumes "buildPrompt h call = Inr ms"
    and "promptPresets (settings st) (promptPreset (settings st)) = Some p"
  shows "run h (Await_buildPrompt i call, st) =
     run h (Await_sendRequest i (request_of h (settings st) p ms),
            st\<lparr>sent := sent st @ [request_of h (settings st) p ms]\<rparr>)"
  using assms
  by (simp add: run_buildPrompt js_get_preset [OF assms(2)] substituted_def request_with_preset)

lemma start_passed:
  "profileId (settings st) \<noteq> [] \<Longrightarrow> promptPreset (settings st) \<noteq> [] \<Longrightarrow>
   i < length (chat st) \<Longrightarrow> i \<notin> pendingRequests st \<Longrightarrow>
   start i st =
     (Await_buildPrompt i (build_call_of (settings st) i),
      st\<lparr>pendingRequests := insert i (pendingRequests st), spinning := True,
         built := built st @ [build_call_of (settings st) i]\<rparr>)"
  by (simp add: start_def)

lemma finally_fields [simp]:
  "pendingRequests (finally_block i st) = pendingRequests st - {i}"
  "spinning (finally_block i st) = False"
  "chat (finally_block i st) = chat st"
  "echoes (finally_block i st) = echoes st"
  "console (finally_block i st) = console st"
  "added (finally_block i st) = added st"
  "dom_text (finally_block i st) = dom_text st"
  "settings (finally_block i st) = settings st"
  "built (finally_block i st) = built st"
  "sent (finally_block i st) = sent st"
  by (simp_all add: finally_block_def)

lemma failed_fields [simp]:
  "pendingRequests (failed_with i e st) = pendingRequests st - {i}"
  "spinning (failed_with i e st) = False"
  "chat (failed_with i e st) = chat st"
  "echoes (failed_with i e st) = echoes st @ [(Echo_error, str ''Error: '' @ e)]"
  "console (failed_with i e st) = console st @ [e]"
  "added (failed_with i e st) = added st"
  "dom_text (failed_with i e st) = dom_text st"
  by (simp_all add: failed_with_def catch_block_def st_echo_def)

lemma warned_fields [simp]:
  "pendingRequests (warned s c st) = pendingRequests st"
  "chat (warned s c st) = chat st"
  "console (warned s c st) = console st"
  "settings (warned s c st) = settings st"
  "added (warned s c st) = added st"
  "dom_text (warned s c st) = dom_text st"
  by (simp_all add: warned_def st_echo_def)

lemma upsert_fields [simp]:
  "pendingRequests (snd (upsert h i c a s st)) = pendingRequests st"
  "console (snd (upsert h i c a s st)) = console st"
  "echoes (snd (upsert h i c a s st)) = echoes st"
  "settings (snd (upsert h i c a s st)) = settings st"
  by (simp_all add: upsert_def Let_def split: option.splits)


lemma run_sendRequest_cleanup:
  "i \<notin> pendingRequests (run h (Await_sendRequest i req, st)) \<and>
   \<not> spinning (run h (Await_sendRequest i req, st))"
  by (simp add: run_sendRequest run_upsert Let_def split: sum.splits option.splits)

lemma find_index_from_Some:
  "find_index_from n P xs = Some k \<Longrightarrow>
   n \<le> k \<and> k - n < length xs \<and> P (xs ! (k - n)) \<and> (\<forall>j<k - n. \<not> P (xs ! j))"
proof (induction xs arbitrary: n)
  case Nil
  then show ?case by simp
next
  case (Cons x xs)
  show ?case
  proof (cases "P x")
    case True
    with Cons.prems show ?thesis by simp
  next
    case False
    with Cons.prems have "find_index_from (Suc n) P xs = Some k" by simp
    from Cons.IH [OF this] have ih: "Suc n \<le> k" "k - Suc n < length xs" "P (xs ! (k - Suc n))"
      "\<forall>j<k - Suc n. \<not> P (xs ! j)" by auto
    from ih(1) have e: "k - n = Suc (k - Suc n)" by simp
    have "\<not> P ((x # xs) ! j)" if "j < k - n" for j
      using that False ih(4) e by (cases j) auto
    with ih e show ?thesis by simp
  qed
qed

lemma find_index_from_None: "find_index_from n P xs = None \<longleftrightarrow> (\<forall>x\<in>set xs. \<not> P x)"
  by (induction xs arbitrary: n) auto

lemma find_index_from_append:
  "find_index_from n P xs = None \<Longrightarrow>
   find_index_from n P (xs @ ys) = find_index_from (n + length xs) P ys"
  by (induction xs arbitrary: n) (auto split: if_splits)

lemma find_index_from_update:
  "find_index_from n P xs = Some k \<Longrightarrow> P y \<Longrightarrow> find_index_from n P (xs[k - n := y]) = Some k"
proof (induction xs arbitrary: n)
  case Nil
  then show ?case by simp
next
  case (Cons x xs)
  show ?case
  proof (cases "P x")
    case True
    with Cons.prems show ?thesis by simp
  next
    case False
    with Cons.prems have f: "find_index_from (Suc n) P xs = Some k" by simp
    from find_index_from_Some [OF f] have "Suc n \<le> k" by simp
    then have e: "k - n = Suc (k - Suc n)" by simp
    from Cons.IH [OF f Cons.prems(2)] False e show ?thesis by simp
  qed
qed

text \<open>
  The annotation of a target message (the first chat message whose target field is the
  target id), what it stores, and the markup the flow renders.
\<close>

definition annotation_of :: "nat \<Rightarrow> ChatMessage list \<Rightarrow> ChatMessage option" where
  "annotation_of targetMessageId msgs =
     map_option (\<lambda>i. msgs ! i) (find_index_from 0 (is_annotation_of targetMessageId) msgs)"

definition stored_options :: "ChatMessage \<Rightarrow> jsstr option list option" where
  "stored_options m = Option.bind (extra m) roadway_options"

definition stored_raw :: "ChatMessage \<Rightarrow> jsstr option" where
  "stored_raw m = Option.bind (extra m) roadway_raw_content"

definition display :: "ExtensionSettings \<Rightarrow> jsstr \<Rightarrow> jsstr list \<Rightarrow> extraction option \<Rightarrow> jsstr \<Rightarrow> markup" where
  "display s rest_content actions strategy classPrefix =
     formatResponse (showUseActionIcon s)
       (if actions \<noteq> [] then innerText_of actions else rest_content)
       (if strategy = Some Bullet then Some actions else None) classPrefix"

lemma upsert_existing:
  assumes "find_index_from 0 (is_annotation_of i) (chat st) = Some k"
  shows "chat (snd (upsert h i c a s st)) =
           (chat st)[k := (chat st ! k)
              \<lparr>mes := Html (display (settings st) c a s []),
               extra := map_option
                 (\<lambda>x. x\<lparr>roadway_raw_content := Some c, roadway_options := Some (map Some a)\<rparr>)
                 (extra (chat st ! k))\<rparr>]"
    and "added (snd (upsert h i c a s st)) = added st"
  using assms by (simp_all add: upsert_def Let_def display_def)

lemma upsert_fresh:
  assumes "find_index_from 0 (is_annotation_of i) (chat st) = None"
  shows "chat (snd (upsert h i c a s st)) =
           chat st @
           [\<lparr>mes = Html (display (settings st) c a s []),
             name = systemUserName h, force_avatar = Some (system_avatar h),
             original_avatar = None, is_system = True, is_user = False,
             extra = Some \<lparr>isSmallSys = True, roadway_target_chat = Some i,
               roadway_raw_content = Some (if a \<noteq> [] then innerText_of a else c),
               roadway_options = Some (map Some a)\<rparr>\<rparr>]"
  using assms by (simp add: upsert_def Let_def display_def)

lemma annotation_after_upsert:
  "\<exists>m. annotation_of i (chat (snd (upsert h i c a s st))) = Some m \<and>
       mes m = Html (display (settings st) c a s []) \<and> stored_options m = Some (map Some a)"
proof (cases "find_index_from 0 (is_annotation_of i) (chat st)")
  case None
  let ?new = "\<lparr>mes = Html (display (settings st) c a s []),
             name = systemUserName h, force_avatar = Some (system_avatar h),
             original_avatar = None, is_system = True, is_user = False,
             extra = Some \<lparr>isSmallSys = True, roadway_target_chat = Some i,
               roadway_raw_content = Some (if a \<noteq> [] then innerText_of a else c),
               roadway_options = Some (map Some a)\<rparr>\<rparr>"
  have "find_index_from 0 (is_annotation_of i) (chat st @ [?new]) = Some (length (chat st))"
    using find_index_from_append [OF None, of "[?new]"] by (simp add: is_annotation_of_def)
  then show ?thesis
    by (simp add: upsert_fresh [OF None] annotation_of_def stored_options_def)
next
  case (Some k)
  from find_index_from_Some [OF Some] have k: "k < length (chat st)"
    "is_annotation_of i (chat st ! k)" by auto
  let ?upd = "(chat st ! k)
              \<lparr>mes := Html (display (settings st) c a s []),
               extra := map_option
                 (\<lambda>x. x\<lparr>roadway_raw_content := Some c, roadway_options := Some (map Some a)\<rparr>)
                 (extra (chat st ! k))\<rparr>"
  from k(2) have p: "is_annotation_of i ?upd"
    by (auto simp: is_annotation_of_def split: option.splits)
  from find_index_from_update [OF Some p]
  have "find_index_from 0 (is_annotation_of i) ((chat st)[k := ?upd]) = Some k" by simp
  moreover from k(2) have "stored_options ?upd = Some (map Some a)"
    by (auto simp: is_annotation_of_def stored_options_def split: option.splits)
  ultimately show ?thesis using k(1)
    by (simp add: upsert_existing(1) [OF Some] annotation_of_def)
qed

lemma generateRoadway_responded:
  assumes "profileId (settings st) \<noteq> []" "promptPreset (settings st) \<noteq> []"
    "i < length (chat st)" "i \<notin> pendingRequests st"
    and "buildPrompt h (build_call_of (settings st) i) = Inr ms"
    and "promptPresets (settings st) (promptPreset (settings st)) = Some p"
    and "sendRequest h (request_of h (settings st) p ms) = Inr c"
  shows "generateRoadway h i st =
     (let s = Some (extractionStrategy p);
          u = snd (upsert h i c (extracted s c) s
                (warned s c
                  (st\<lparr>pendingRequests := insert i (pendingRequests st), spinning := True,
                      built := built st @ [build_call_of (settings st) i],
                      sent := sent st @ [request_of h (settings st) p ms]\<rparr>)))
      in case saveChat h (chat u) of Some e \<Rightarrow> failed_with i e u | None \<Rightarrow> finally_block i u)"
proof -
  let ?st0 = "st\<lparr>pendingRequests := insert i (pendingRequests st), spinning := True,
                 built := built st @ [build_call_of (settings st) i]\<rparr>"
  have p: "promptPresets (settings ?st0) (promptPreset (settings ?st0)) = Some p"
    using assms(6) by simp
  have "generateRoadway h i st = run h (Await_buildPrompt i (build_call_of (settings st) i), ?st0)"
    using assms(1-4) by (simp add: generateRoadway_def start_passed)
  also have "\<dots> = run h (Await_sendRequest i (request_of h (settings ?st0) p ms),
            ?st0\<lparr>sent := sent ?st0 @ [request_of h (settings ?st0) p ms]\<rparr>)"
    by (rule run_buildPrompt_preset [OF assms(5) p])
  finally show ?thesis
    using assms(7) strategy_of_preset [OF assms(6), of h]
    by (simp add: run_sendRequest run_upsert Let_def)
qed


subsection \<open>A chat to run the flow on\<close>

definition example_settings :: ExtensionSettings where
  "example_settings =
     \<lparr>profileId = str ''profile-1'', maxContextType = Profile, maxContextValue = 16384,
      maxResponseToken = 500, promptPreset = str ''default'', autoOpen = True,
      own_promptPresets =
        [str ''default'' \<mapsto>
           of_preset
             \<lparr>content = str ''List actions'', extractionStrategy = Bullet, impersonate = None\<rparr>],
      showUseActionIcon = True, messageRole = System\<rparr>"

definition user_message :: ChatMessage where
  "user_message =
     \<lparr>mes = Text (str ''Hello''), name = str ''Alice'', force_avatar = None,
      original_avatar = None, is_system = False, is_user = True, extra = None\<rparr>"

definition old_annotation :: ChatMessage where
  "old_annotation =
     \<lparr>mes = Html (Details [] (Pre (str ''old''))), name = str ''System'',
      force_avatar = None, original_avatar = None, is_system = True, is_user = False,
      extra = Some \<lparr>isSmallSys = True, roadway_target_chat = Some 0,
        roadway_raw_content = Some (str ''old''),
        roadway_options = Some [Some (str ''Old action'')]\<rparr>\<rparr>"

definition example_state :: "ChatMessage list \<Rightarrow> state" where
  "example_state msgs =
     \<lparr>settings = example_settings, chat = msgs, pendingRequests = {}, spinning = False,
      echoes = [], console = [], built = [], sent = [], added = [], dom_text = Map.empty,
      dom_open = {}, attached = [], row_texts = [], saves = 0\<rparr>"

text \<open>A host that answers the request with \<open>c\<close>, and one whose request service rejects.\<close>

definition answering :: "jsstr \<Rightarrow> host" where
  "answering c =
     \<lparr>substituteParams = (\<lambda>s. s), substituteParams_undefined = Inr [],
      prototype_chain = object_prototype, buildPrompt = (\<lambda>call. Inr []),
      sendRequest = (\<lambda>req. Inr c), saveChat = (\<lambda>msgs. None),
      systemUserName = str ''System'', system_avatar = str ''system.png''\<rparr>"

definition rejecting :: "jsstr \<Rightarrow> host" where
  "rejecting e =
     \<lparr>substituteParams = (\<lambda>s. s), substituteParams_undefined = Inr [],
      prototype_chain = object_prototype, buildPrompt = (\<lambda>call. Inr []),
      sendRequest = (\<lambda>req. Inl e), saveChat = (\<lambda>msgs. None),
      systemUserName = str ''System'', system_avatar = str ''system.png''\<rparr>"

lemma example_checks:
  "profileId (settings (example_state [user_message])) \<noteq> []"
  "promptPreset (settings (example_state [user_message])) \<noteq> []"
  "0 < length (chat (example_state [user_message]))"
  "0 \<notin> pendingRequests (example_state [user_message])"
  by (simp_all add: example_state_def example_settings_def str_def)

lemma example_checks_annotated:
  "profileId (settings (example_state [user_message, old_annotation])) \<noteq> []"
  "promptPreset (settings (example_state [user_message, old_annotation])) \<noteq> []"
  "0 < length (chat (example_state [user_message, old_annotation]))"
  "0 \<notin> pendingRequests (example_state [user_message, old_annotation])"
  by (simp_all add: example_state_def example_settings_def str_def)

lemma example_preset:
  "promptPresets (settings (example_state msgs)) (promptPreset (settings (example_state msgs)))
   = Some \<lparr>content = str ''List actions'', extractionStrategy = Bullet, impersonate = None\<rparr>"
  by (simp add: example_state_def example_settings_def promptPresets_def of_preset_def)

text \<open>
  A thrown error \<open>e\<close> was logged to the console and shown as the last notice, an error
  notice.
\<close>

definition surfaced :: "jsstr \<Rightarrow> state \<Rightarrow> state \<Rightarrow> bool" where
  "surfaced e st st' \<longleftrightarrow>
     console st' = console st @ [e] \<and> echoes st' \<noteq> [] \<and>
     last (echoes st') = (Echo_error, str ''Error: '' @ e)"

lemma surfaced_failed_with:
  "console s = console st \<Longrightarrow> surfaced e st (failed_with i e s)"
  by (simp add: surfaced_def)

text \<open>
  C8. A flow that has passed the duplicate check ends, whatever the host answers, with
  the cleanup done: the target id is out of the in-flight set and the busy indicator is
  off. When a host service rejects (the prompt assembly, the request, or the chat save),
  the error is logged and shown as an error notice, and the flow still ends normally.
\<close>

theorem generateRoadway_cleanup:
  assumes "profileId (settings st) \<noteq> []" and "promptPreset (settings st) \<noteq> []"
    and "i < length (chat st)" and "i \<notin> pendingRequests st"
  shows "i \<notin> pendingRequests (generateRoadway h i st) \<and> \<not> spinning (generateRoadway h i st) \<and>
    (\<forall>e. buildPrompt h (build_call_of (settings st) i) = Inl e \<longrightarrow>
       surfaced e st (generateRoadway h i st)) \<and>
    (\<forall>ms p e. buildPrompt h (build_call_of (settings st) i) = Inr ms \<longrightarrow>
       promptPresets (settings st) (promptPreset (settings st)) = Some p \<longrightarrow>
       sendRequest h (request_of h (settings st) p ms) = Inl e \<longrightarrow>
       surfaced e st (generateRoadway h i st)) \<and>
    (\<forall>ms p c e. buildPrompt h (build_call_of (settings st) i) = Inr ms \<longrightarrow>
       promptPresets (settings st) (promptPreset (settings st)) = Some p \<longrightarrow>
       sendRequest h (request_of h (settings st) p ms) = Inr c \<longrightarrow>
       saveChat h (chat (generateRoadway h i st)) = Some e \<longrightarrow>
       surfaced e st (generateRoadway h i st))"
proof (cases "buildPrompt h (build_call_of (settings st) i)")
  case (Inl e)
  with assms show ?thesis
    by (simp add: generateRoadway_def start_passed run_buildPrompt surfaced_failed_with)
next
  case (Inr ms)
  show ?thesis
  proof (cases "promptPresets (settings st) (promptPreset (settings st))")
    case None
    with Inr assms show ?thesis
      by (simp add: generateRoadway_def start_passed run_buildPrompt run_sendRequest_cleanup
          split: jsvalue.splits sum.splits)
  next
    case (Some p)
    show ?thesis
    proof (cases "sendRequest h (request_of h (settings st) p ms)")
      case (Inl e)
      have "generateRoadway h i st
        = failed_with i e
            (st\<lparr>pendingRequests := insert i (pendingRequests st), spinning := True,
                built := built st @ [build_call_of (settings st) i],
                sent := sent st @ [request_of h (settings st) p ms]\<rparr>)"
        using assms Inr Some Inl
        by (simp add: generateRoadway_def start_passed run_buildPrompt_preset [OF Inr]
            run_sendRequest)
      with Inr Some Inl show ?thesis
        by (simp add: surfaced_failed_with)
    next
      case c: (Inr c)
      note g = generateRoadway_responded [OF assms Inr Some c]
      show ?thesis
        using Inr Some c
        by (simp add: g Let_def surfaced_failed_with split: option.splits)
    qed
  qed
qed

theorem generateRoadway_cleanup_witness:
  "profileId (settings (example_state [user_message])) \<noteq> [] \<and>
   promptPreset (settings (example_state [user_message])) \<noteq> [] \<and>
   0 < length (chat (example_state [user_message])) \<and>
   0 \<notin> pendingRequests (example_state [user_message]) \<and>
   0 \<notin> pendingRequests (generateRoadway (rejecting (str ''offline'')) 0 (example_state [user_message])) \<and>
   \<not> spinning (generateRoadway (rejecting (str ''offline'')) 0 (example_state [user_message])) \<and>
   surfaced (str ''offline'') (example_state [user_message])
     (generateRoadway (rejecting (str ''offline'')) 0 (example_state [user_message]))"
proof -
  let ?st = "example_state [user_message]"
  let ?h = "rejecting (str ''offline'')"
  let ?p = "\<lparr>content = str ''List actions'', extractionStrategy = Bullet, impersonate = None\<rparr>"
  have bp: "buildPrompt ?h (build_call_of (settings ?st) 0) = Inr []"
    by (simp add: rejecting_def)
  have sr: "sendRequest ?h (request_of ?h (settings ?st) ?p []) = Inl (str ''offline'')"
    by (simp add: rejecting_def)
  note t = generateRoadway_cleanup [OF example_checks, of ?h]
  from t have a: "0 \<notin> pendingRequests (generateRoadway ?h 0 ?st)"
    "\<not> spinning (generateRoadway ?h 0 ?st)" by blast+
  from t have "\<forall>ms p e. buildPrompt ?h (build_call_of (settings ?st) 0) = Inr ms \<longrightarrow>
       promptPresets (settings ?st) (promptPreset (settings ?st)) = Some p \<longrightarrow>
       sendRequest ?h (request_of ?h (settings ?st) p ms) = Inl e \<longrightarrow>
       surfaced e ?st (generateRoadway ?h 0 ?st)" by blast
  with bp example_preset sr have "surfaced (str ''offline'') ?st (generateRoadway ?h 0 ?st)"
    by blast
  with a example_checks show ?thesis by simp
qed

text \<open>
  C4. When the target message already has an annotation, a completed generation updates
  that chat message in place: the chat keeps its length, no message is handed to the
  host for insertion, every other message is untouched, and the annotation stores
  exactly the list extracted from the latest response.
\<close>

theorem generateRoadway_updates_in_place:
  assumes "profileId (settings st) \<noteq> []" and "promptPreset (settings st) \<noteq> []"
    and "i < length (chat st)" and "i \<notin> pendingRequests st"
    and "buildPrompt h (build_call_of (settings st) i) = Inr ms"
    and "promptPresets (settings st) (promptPreset (settings st)) = Some p"
    and "sendRequest h (request_of h (settings st) p ms) = Inr c"
    and ex: "find_index_from 0 (is_annotation_of i) (chat st) = Some k"
  shows "length (chat (generateRoadway h i st)) = length (chat st) \<and>
    added (generateRoadway h i st) = added st \<and>
    (\<forall>j. j \<noteq> k \<longrightarrow> chat (generateRoadway h i st) ! j = chat st ! j) \<and>
    find_index_from 0 (is_annotation_of i) (chat (generateRoadway h i st)) = Some k \<and>
    stored_options (chat (generateRoadway h i st) ! k)
      = Some (map Some (extracted (Some (extractionStrategy p)) c))"
proof -
  let ?s = "Some (extractionStrategy p)"
  let ?st1 = "warned ?s c
                  (st\<lparr>pendingRequests := insert i (pendingRequests st), spinning := True,
                      built := built st @ [build_call_of (settings st) i],
                      sent := sent st @ [request_of h (settings st) p ms]\<rparr>)"
  let ?u = "snd (upsert h i c (extracted ?s c) ?s ?st1)"
  have ex1: "find_index_from 0 (is_annotation_of i) (chat ?st1) = Some k" using ex by simp
  from find_index_from_Some [OF ex] have k: "k < length (chat st)"
    "is_annotation_of i (chat st ! k)" by auto
  have ch: "chat (generateRoadway h i st) = chat ?u"
    by (simp add: generateRoadway_responded [OF assms(1-7)] Let_def split: option.splits)
  have ad: "added (generateRoadway h i st) = added ?u"
    by (simp add: generateRoadway_responded [OF assms(1-7)] Let_def split: option.splits)
  let ?upd = "(chat st ! k)
              \<lparr>mes := Html (display (settings ?st1) c (extracted ?s c) ?s []),
               extra := map_option
                 (\<lambda>x. x\<lparr>roadway_raw_content := Some c,
                          roadway_options := Some (map Some (extracted ?s c))\<rparr>)
                 (extra (chat st ! k))\<rparr>"
  have u: "chat ?u = (chat st)[k := ?upd]" using upsert_existing(1) [OF ex1] by simp
  from k(2) have p: "is_annotation_of i ?upd"
    by (auto simp: is_annotation_of_def split: option.splits)
  from find_index_from_update [OF ex p]
  have f: "find_index_from 0 (is_annotation_of i) ((chat st)[k := ?upd]) = Some k" by simp
  from k(2) have o: "stored_options ?upd = Some (map Some (extracted ?s c))"
    by (auto simp: is_annotation_of_def stored_options_def split: option.splits)
  from ch u f o k(1) ad upsert_existing(2) [OF ex1] show ?thesis by simp
qed

theorem generateRoadway_updates_in_place_witness:
  "find_index_from 0 (is_annotation_of 0) (chat (example_state [user_message, old_annotation])) = Some 1 \<and>
   length (chat (generateRoadway (answering (str ''1. New A'' @ [0x0A] @ str ''2. New B'')) 0
      (example_state [user_message, old_annotation]))) = 2 \<and>
   stored_options (chat (generateRoadway (answering (str ''1. New A'' @ [0x0A] @ str ''2. New B'')) 0
      (example_state [user_message, old_annotation])) ! 1)
     = Some [Some (str ''New A''), Some (str ''New B'')]"
proof -
  let ?st = "example_state [user_message, old_annotation]"
  let ?c = "str ''1. New A'' @ [0x0A] @ str ''2. New B''"
  let ?h = "answering ?c"
  let ?p = "\<lparr>content = str ''List actions'', extractionStrategy = Bullet, impersonate = None\<rparr>"
  have bp: "buildPrompt ?h (build_call_of (settings ?st) 0) = Inr []"
    by (simp add: answering_def)
  have sr: "sendRequest ?h (request_of ?h (settings ?st) ?p []) = Inr ?c"
    by (simp add: answering_def)
  have ex: "find_index_from 0 (is_annotation_of 0) (chat ?st) = Some 1"
    by (simp add: example_state_def user_message_def old_annotation_def is_annotation_of_def)
  have e: "extracted (Some (extractionStrategy ?p)) ?c = [str ''New A'', str ''New B'']"
    by (simp add: extracted_def extract_eval)
  from generateRoadway_updates_in_place [OF example_checks_annotated bp example_preset sr ex] e ex
  show ?thesis by (simp add: example_state_def)
qed

text \<open>
  Under the bullet strategy, when no line of the response (reasoning blocks removed)
  begins with a marker or is a bare marker, the extractor returns the empty list and the
  flow falls back to the raw response. The annotation shows the response in a
  preformatted block instead of option rows; so does the message handed to the host
  when the annotation is new, and the markup written into the page when the annotation
  exists. Exactly one warning is emitted, and the flow does not fail: when the chat
  save succeeds, the warning is the only notice and nothing is logged as an error.
\<close>

lemma generateRoadway_no_marked_line:
  assumes "profileId (settings st) \<noteq> []" and "promptPreset (settings st) \<noteq> []"
    and "i < length (chat st)" and "i \<notin> pendingRequests st"
    and "buildPrompt h (build_call_of (settings st) i) = Inr ms"
    and "promptPresets (settings st) (promptPreset (settings st)) = Some p"
    and "sendRequest h (request_of h (settings st) p ms) = Inr c"
    and bullet: "extractionStrategy p = Bullet"
    and nm: "\<forall>l\<in>set (js_lines (remove_think c)). \<not> marked_line l \<and> \<not> bare_marker l"
  shows "extractBulletPoints c = [] \<and>
    map_option mes (annotation_of i (chat (generateRoadway h i st))) = Some (Html (Details [] (Pre c))) \<and>
    (find_index_from 0 (is_annotation_of i) (chat st) = None \<longrightarrow>
       map (\<lambda>x. (mes (fst x), snd x)) (added (generateRoadway h i st))
         = map (\<lambda>x. (mes (fst x), snd x)) (added st) @ [(Html (Details [] (Pre c)), i)]) \<and>
    (find_index_from 0 (is_annotation_of i) (chat st) \<noteq> None \<longrightarrow>
       added (generateRoadway h i st) = added st \<and>
       dom_text (generateRoadway h i st) (i + 1) = Some (Details (str ''custom-'') (Pre c))) \<and>
    filter (\<lambda>x. fst x = Echo_warning) (echoes (generateRoadway h i st))
      = filter (\<lambda>x. fst x = Echo_warning) (echoes st) @
        [(Echo_warning,
          str ''Could not extract any bullet points from the response. Using original response.'')] \<and>
    (saveChat h (chat (generateRoadway h i st)) = None \<longrightarrow>
       echoes (generateRoadway h i st)
         = echoes st @
           [(Echo_warning,
             str ''Could not extract any bullet points from the response. Using original response.'')] \<and>
       console (generateRoadway h i st) = console st)"
proof -
  from nm have e: "extractBulletPoints c = []"
    by (simp add: extractBulletPoints_def scan_bullets_no_marked_line)
  let ?s = "Some (extractionStrategy p)"
  let ?st1 = "warned ?s c
                  (st\<lparr>pendingRequests := insert i (pendingRequests st), spinning := True,
                      built := built st @ [build_call_of (settings st) i],
                      sent := sent st @ [request_of h (settings st) p ms]\<rparr>)"
  let ?u = "snd (upsert h i c (extracted ?s c) ?s ?st1)"
  note g = generateRoadway_responded [OF assms(1-7)]
  have ch: "chat (generateRoadway h i st) = chat ?u"
    by (simp add: g Let_def split: option.splits)
  have ad: "added (generateRoadway h i st) = added ?u"
    by (simp add: g Let_def split: option.splits)
  have dt: "dom_text (generateRoadway h i st) = dom_text ?u"
    by (simp add: g Let_def split: option.splits)
  from annotation_after_upsert [of i h c "extracted ?s c" ?s ?st1]
  obtain m where m: "annotation_of i (chat ?u) = Some m"
    "mes m = Html (display (settings ?st1) c (extracted ?s c) ?s [])" by blast
  have d: "display (settings ?st1) c (extracted ?s c) ?s cp = Details cp (Pre c)" for cp
    using e bullet by (simp add: display_def extracted_def formatResponse_def)
  from d m ch have a: "map_option mes (annotation_of i (chat (generateRoadway h i st)))
    = Some (Html (Details [] (Pre c)))" by simp
  have fresh: "map (\<lambda>x. (mes (fst x), snd x)) (added (generateRoadway h i st))
         = map (\<lambda>x. (mes (fst x), snd x)) (added st) @ [(Html (Details [] (Pre c)), i)]"
    if "find_index_from 0 (is_annotation_of i) (chat st) = None"
  proof -
    from that have "map (\<lambda>x. (mes (fst x), snd x)) (added ?u)
      = map (\<lambda>x. (mes (fst x), snd x)) (added st) @
        [(Html (display (settings ?st1) c (extracted ?s c) ?s []), i)]"
      by (simp add: upsert_def Let_def display_def)
    with d ad show ?thesis by simp
  qed
  have existing: "added (generateRoadway h i st) = added st \<and>
       dom_text (generateRoadway h i st) (i + 1) = Some (Details (str ''custom-'') (Pre c))"
    if "find_index_from 0 (is_annotation_of i) (chat st) \<noteq> None"
  proof -
    from that obtain k where k: "find_index_from 0 (is_annotation_of i) (chat st) = Some k" by auto
    then have "dom_text ?u (i + 1)
      = Some (display (settings ?st1) c (extracted ?s c) ?s (str ''custom-''))"
      by (simp add: upsert_def Let_def display_def)
    moreover from k have "added ?u = added st" by (simp add: upsert_def Let_def)
    ultimately show ?thesis using d ad dt by simp
  qed
  have w: "echoes ?u = echoes st @ [(Echo_warning,
          str ''Could not extract any bullet points from the response. Using original response.'')]"
    using e bullet by (simp add: warned_def st_echo_def)
  have cs: "console ?u = console st" by simp
  show ?thesis
  proof (cases "saveChat h (chat ?u)")
    case None
    then have "generateRoadway h i st = finally_block i ?u" by (simp add: g Let_def)
    with e a w cs fresh existing show ?thesis by simp
  next
    case (Some err)
    then have "generateRoadway h i st = failed_with i err ?u" by (simp add: g Let_def)
    with e a w Some ch fresh existing show ?thesis by simp
  qed
qed

lemma generateRoadway_no_marked_line_example:
  "js_lines (remove_think (str ''Nothing to list here.'')) = [str ''Nothing to list here.''] \<and>
   \<not> marked_line (str ''Nothing to list here.'') \<and>
   \<not> bare_marker (str ''Nothing to list here.'') \<and>
   extractBulletPoints (str ''Nothing to list here.'') = [] \<and>
   map_option mes (annotation_of 0
     (chat (generateRoadway (answering (str ''Nothing to list here.'')) 0 (example_state [user_message]))))
     = Some (Html (Details [] (Pre (str ''Nothing to list here.'')))) \<and>
   map (\<lambda>x. (mes (fst x), snd x))
     (added (generateRoadway (answering (str ''Nothing to list here.'')) 0 (example_state [user_message])))
     = [(Html (Details [] (Pre (str ''Nothing to list here.''))), 0)] \<and>
   echoes (generateRoadway (answering (str ''Nothing to list here.'')) 0 (example_state [user_message]))
     = [(Echo_warning,
         str ''Could not extract any bullet points from the response. Using original response.'')] \<and>
   console (generateRoadway (answering (str ''Nothing to list here.'')) 0 (example_state [user_message])) = []"
proof -
  let ?st = "example_state [user_message]"
  let ?c = "str ''Nothing to list here.''"
  let ?h = "answering ?c"
  let ?p = "\<lparr>content = str ''List actions'', extractionStrategy = Bullet, impersonate = None\<rparr>"
  have bp: "buildPrompt ?h (build_call_of (settings ?st) 0) = Inr []"
    by (simp add: answering_def)
  have sr: "sendRequest ?h (request_of ?h (settings ?st) ?p []) = Inr ?c"
    by (simp add: answering_def)
  have b: "extractionStrategy ?p = Bullet" by simp
  have l: "js_lines (remove_think ?c) = [?c]"
    by (simp add: extract_eval)
  have m: "\<not> marked_line ?c" "\<not> bare_marker ?c"
    by (simp_all add: marked_line_def bare_marker_def untermin_def str_def char_class_defs)
  from l m have nm: "\<forall>l\<in>set (js_lines (remove_think ?c)). \<not> marked_line l \<and> \<not> bare_marker l"
    by simp
  have sv: "saveChat ?h (chat (generateRoadway ?h 0 ?st)) = None" by (simp add: answering_def)
  have f: "find_index_from 0 (is_annotation_of 0) (chat ?st) = None"
    by (simp add: example_state_def user_message_def is_annotation_of_def)
  from generateRoadway_no_marked_line [OF example_checks bp example_preset sr b nm] sv l m f
  show ?thesis by (simp add: example_state_def)
qed

text \<open>
  C7. The claim: when no line of the response begins with a marker, the extractor returns
  the empty list, the raw response is shown instead of an action list, and one warning
  is emitted. In the response of the two lines \<open>-\<close> and \<open>foo\<close> no line begins with a
  marker: the hyphen is followed by the end of its line, not by whitespace. The
  whitespace of the marker pattern accepts the line break, as in C1, so the extractor
  returns the unmarked second line: no warning is emitted, and the annotation shows
  \<open>foo\<close> as an option row instead of the raw response.
\<close>

theorem generateRoadway_bare_marker_response:
  "js_lines (remove_think (str ''-'' @ [0x0A] @ str ''foo'')) = [str ''-'' @ [0x0A], str ''foo''] \<and>
   \<not> marked_line (str ''-'' @ [0x0A]) \<and> \<not> marked_line (str ''foo'') \<and>
   extractBulletPoints (str ''-'' @ [0x0A] @ str ''foo'') = [str ''foo''] \<and>
   echoes (generateRoadway (answering (str ''-'' @ [0x0A] @ str ''foo'')) 0 (example_state [user_message]))
     = [] \<and>
   map_option mes (annotation_of 0
     (chat (generateRoadway (answering (str ''-'' @ [0x0A] @ str ''foo'')) 0 (example_state [user_message]))))
     = Some (Html (Details [] (Options [\<lparr>use_shown = True, option_text = str ''foo''\<rparr>]))) \<and>
   map (\<lambda>x. (mes (fst x), snd x))
     (added (generateRoadway (answering (str ''-'' @ [0x0A] @ str ''foo'')) 0 (example_state [user_message])))
     = [(Html (Details [] (Options [\<lparr>use_shown = True, option_text = str ''foo''\<rparr>])), 0)]"
proof -
  let ?st = "example_state [user_message]"
  let ?c = "str ''-'' @ [0x0A] @ str ''foo''"
  let ?h = "answering ?c"
  let ?p = "\<lparr>content = str ''List actions'', extractionStrategy = Bullet, impersonate = None\<rparr>"
  let ?s = "Some (extractionStrategy ?p)"
  let ?st1 = "warned ?s ?c
                  (?st\<lparr>pendingRequests := insert 0 (pendingRequests ?st), spinning := True,
                      built := built ?st @ [build_call_of (settings ?st) 0],
                      sent := sent ?st @ [request_of ?h (settings ?st) ?p []]\<rparr>)"
  let ?u = "snd (upsert ?h 0 ?c (extracted ?s ?c) ?s ?st1)"
  let ?shown = "Details [] (Options [\<lparr>use_shown = True, option_text = str ''foo''\<rparr>])"
  have l: "js_lines (remove_think ?c) = [str ''-'' @ [0x0A], str ''foo'']"
    by (simp add: extract_eval)
  have m: "\<not> marked_line (str ''-'' @ [0x0A])" "\<not> marked_line (str ''foo'')"
    by (simp_all add: marked_line_def untermin_def str_def char_class_defs)
  have e: "extractBulletPoints ?c = [str ''foo'']"
    by (simp add: extract_eval)
  have bp: "buildPrompt ?h (build_call_of (settings ?st) 0) = Inr []"
    by (simp add: answering_def)
  have sr: "sendRequest ?h (request_of ?h (settings ?st) ?p []) = Inr ?c"
    by (simp add: answering_def)
  have sv: "saveChat ?h msgs = None" for msgs by (simp add: answering_def)
  have g: "generateRoadway ?h 0 ?st = finally_block 0 ?u"
    using generateRoadway_responded [OF example_checks bp example_preset sr] sv
    by (simp add: Let_def)
  have ec: "echoes (generateRoadway ?h 0 ?st) = []"
    unfolding g using e by (simp add: warned_def example_state_def)
  have d: "display (settings ?st1) ?c (extracted ?s ?c) ?s [] = ?shown"
    using e by (simp add: display_def extracted_def formatResponse_def example_state_def
        example_settings_def)
  from annotation_after_upsert [of 0 ?h ?c "extracted ?s ?c" ?s ?st1]
  obtain m where m': "annotation_of 0 (chat ?u) = Some m"
    "mes m = Html (display (settings ?st1) ?c (extracted ?s ?c) ?s [])" by blast
  with d have an: "map_option mes (annotation_of 0 (chat (generateRoadway ?h 0 ?st))) = Some (Html ?shown)"
    unfolding g by simp
  have f: "find_index_from 0 (is_annotation_of 0) (chat ?st1) = None"
    by (simp add: example_state_def user_message_def is_annotation_of_def)
  then have "map (\<lambda>x. (mes (fst x), snd x)) (added ?u)
      = map (\<lambda>x. (mes (fst x), snd x)) (added ?st1) @
        [(Html (display (settings ?st1) ?c (extracted ?s ?c) ?s []), 0)]"
    by (simp add: upsert_def Let_def display_def)
  with d have ad: "map (\<lambda>x. (mes (fst x), snd x)) (added (generateRoadway ?h 0 ?st)) = [(Html ?shown, 0)]"
    unfolding g by (simp add: example_state_def)
  from l m e ec an ad show ?thesis by simp
qed


lemma upsert_chat_cong:
  "chat st = chat st2 \<Longrightarrow> settings st = settings st2 \<Longrightarrow>
   chat (snd (upsert h i c a s st)) = chat (snd (upsert h i c a s st2))"
  by (simp add: upsert_def Let_def split: option.splits)

lemma chat_generateRoadway:
  assumes "profileId (settings st) \<noteq> []" "promptPreset (settings st) \<noteq> []"
    "i < length (chat st)" "i \<notin> pendingRequests st"
    and "buildPrompt h (build_call_of (settings st) i) = Inr ms"
    and "promptPresets (settings st) (promptPreset (settings st)) = Some p"
    and "sendRequest h (request_of h (settings st) p ms) = Inr c"
  shows "chat (generateRoadway h i st) =
     chat (snd (upsert h i c (extracted (Some (extractionStrategy p)) c)
       (Some (extractionStrategy p)) st))"
proof -
  let ?s = "Some (extractionStrategy p)"
  let ?st1 = "warned ?s c
                  (st\<lparr>pendingRequests := insert i (pendingRequests st), spinning := True,
                      built := built st @ [build_call_of (settings st) i],
                      sent := sent st @ [request_of h (settings st) p ms]\<rparr>)"
  have "chat (generateRoadway h i st) = chat (snd (upsert h i c (extracted ?s c) ?s ?st1))"
    by (simp add: generateRoadway_responded [OF assms] Let_def split: option.splits)
  also have "\<dots> = chat (snd (upsert h i c (extracted ?s c) ?s st))"
    by (rule upsert_chat_cong) simp_all
  finally show ?thesis .
qed

text \<open>
  C5. The claim: every annotation, created or updated, stores the unmodified response in
  its raw-content field. For the response \<open>- Do Z\<close> the update of an existing
  annotation stores \<open>- Do Z\<close>, and the creation of a new one stores the renumbered
  display text \<open>1. Do Z\<close>.
\<close>

theorem generateRoadway_raw_content_of_new_annotation:
  "map stored_raw
     (chat (generateRoadway (answering (str ''- Do Z'')) 0 (example_state [user_message])))
     = [None, Some (str ''1. Do Z'')] \<and>
   map stored_raw
     (chat (generateRoadway (answering (str ''- Do Z'')) 0
        (example_state [user_message, old_annotation])))
     = [None, Some (str ''- Do Z'')]"
proof -
  let ?c = "str ''- Do Z''"
  let ?h = "answering ?c"
  let ?p = "\<lparr>content = str ''List actions'', extractionStrategy = Bullet, impersonate = None\<rparr>"
  have e: "extracted (Some (extractionStrategy ?p)) ?c = [str ''Do Z'']"
    by (simp add: extracted_def extract_eval)
  have i: "innerText_of [str ''Do Z''] = str ''1. Do Z''"
    by (simp add: innerText_of_def numbered_def decimal.simps str_def)
  have bp: "\<And>st. buildPrompt ?h (build_call_of (settings st) 0) = Inr []"
    by (simp add: answering_def)
  have sr: "\<And>st. sendRequest ?h (request_of ?h (settings st) ?p []) = Inr ?c"
    by (simp add: answering_def)
  have f1: "find_index_from 0 (is_annotation_of 0) (chat (example_state [user_message])) = None"
    by (simp add: example_state_def user_message_def is_annotation_of_def)
  have f2: "find_index_from 0 (is_annotation_of 0)
      (chat (example_state [user_message, old_annotation])) = Some 1"
    by (simp add: example_state_def user_message_def old_annotation_def is_annotation_of_def)
  have c1: "chat (generateRoadway ?h 0 (example_state [user_message]))
    = chat (snd (upsert ?h 0 ?c [str ''Do Z''] (Some Bullet) (example_state [user_message])))"
    using chat_generateRoadway [OF example_checks bp example_preset sr] e by simp
  have c2: "chat (generateRoadway ?h 0 (example_state [user_message, old_annotation]))
    = chat (snd (upsert ?h 0 ?c [str ''Do Z''] (Some Bullet)
        (example_state [user_message, old_annotation])))"
    using chat_generateRoadway [OF example_checks_annotated bp example_preset sr] e by simp
  have "map stored_raw (chat (generateRoadway ?h 0 (example_state [user_message])))
     = [None, Some (str ''1. Do Z'')]"
    unfolding c1 upsert_fresh [OF f1]
    by (simp add: i example_state_def user_message_def stored_raw_def)
  moreover have "map stored_raw (chat (generateRoadway ?h 0 (example_state [user_message, old_annotation])))
     = [None, Some (str ''- Do Z'')]"
    unfolding c2 upsert_existing(1) [OF f2]
    by (simp add: example_state_def user_message_def old_annotation_def stored_raw_def)
  ultimately show ?thesis by simp
qed

text \<open>
  The trace of the in-flight guard: a first request for message 0 is issued and waits for
  the prompt assembly; a second request for message 0 is issued, warns, and returns.
\<close>

definition first_waiting :: state where
  "first_waiting = snd (start 0 (example_state [user_message]))"

definition second_warned :: state where
  "second_warned = snd (start 0 first_waiting)"

definition second_returned :: state where
  "second_returned = snd (resume (answering []) (fst (start 0 first_waiting)) second_warned)"

text \<open>
  In any state that lets a request for a message through, a second request for the same
  message is turned away, and once it has returned the message is out of the in-flight
  set again although the first request has not been resumed.
\<close>

lemma duplicate_request_in_general:
  assumes "profileId (settings st) \<noteq> []" and "promptPreset (settings st) \<noteq> []"
    and "i < length (chat st)" and "i \<notin> pendingRequests st"
  shows "fst (start i (snd (start i st))) = Await_echo_duplicate i"
    and "i \<notin> pendingRequests
           (snd (resume h (Await_echo_duplicate i) (snd (start i (snd (start i st))))))"
    and "built (snd (resume h (Await_echo_duplicate i) (snd (start i (snd (start i st))))))
           = built (snd (start i st))"
  using assms by (simp_all add: start_def st_echo_def finally_block_def)

text \<open>
  C2. The claim: while the first request is unresolved, a second request for the same
  message dispatches nothing and the in-flight set keeps its one entry for the message.
  The second request dispatches nothing, but its duplicate check stands inside the
  \<^verbatim>\<open>try\<close> whose \<^verbatim>\<open>finally\<close> removes the id: when the second request has
  returned, the in-flight set is empty and the busy indicator is off, while the first
  request still waits; a third request for the message is then dispatched.
\<close>

theorem duplicate_request_releases_guard:
  "fst (start 0 (example_state [user_message])) = Await_buildPrompt 0 (build_call_of example_settings 0) \<and>
   pendingRequests first_waiting = {0} \<and>
   fst (start 0 first_waiting) = Await_echo_duplicate 0 \<and>
   built second_warned = built first_waiting \<and>
   sent second_warned = sent first_waiting \<and>
   pendingRequests second_warned = {0} \<and>
   pendingRequests second_returned = {} \<and>
   spinning second_returned = False \<and>
   fst (start 0 second_returned) = Await_buildPrompt 0 (build_call_of example_settings 0) \<and>
   length (built (snd (start 0 second_returned))) = 2"
  by (simp add: first_waiting_def second_warned_def second_returned_def start_def example_state_def
      example_settings_def user_message_def st_echo_def finally_block_def str_def)

section \<open>Prompt presets\<close>

text \<open>
  The callbacks that \<open>handleUIChanges\<close> hands to \<open>buildPresetSelect\<close>, as functions on the
  settings. The two default texts of \<open>onAfterCreate\<close> are long constants of the source;
  they are taken as parameters, as is what the object \<open>promptPresets\<close> inherits.
\<close>

definition onSelectChange :: "jsstr option \<Rightarrow> ExtensionSettings \<Rightarrow> ExtensionSettings" where
  "onSelectChange newValue s =
     s\<lparr>promptPreset := (case newValue of None \<Rightarrow> str ''default'' | Some v \<Rightarrow> v)\<rparr>"



definition onAfterDelete :: "jsstr \<Rightarrow> ExtensionSettings \<Rightarrow> ExtensionSettings" where
  "onAfterDelete value s = js_delete value s"



section \<open>Editing an option\<close>




section \<open>Properties of the preset callbacks and of the edit handlers\<close>





lemma js_set_selected [simp]: "promptPreset (js_set k v s) = promptPreset s"
  by (simp add: js_set_def)

lemma js_delete_own [simp]:
  "own_promptPresets (js_delete k s) = (own_promptPresets s)(k := None)"
  "promptPreset (js_delete k s) = promptPreset s"
  by (simp_all add: js_delete_def)

lemma onSelectChange_fields [simp]:
  "promptPreset (onSelectChange (Some v) s) = v"
  "promptPreset (onSelectChange None s) = str ''default''"
  "own_promptPresets (onSelectChange shown s) = own_promptPresets s"
  by (simp_all add: onSelectChange_def)

lemma promptPresets_onSelectChange [simp]:
  "promptPresets (onSelectChange shown s) = promptPresets s"
  by (rule ext) (simp add: promptPresets_def)



lemma preset_of_of_preset [simp]: "preset_of (of_preset p) = Some p"
  by (simp add: of_preset_def)

lemma onAfterDelete_fields [simp]:
  "own_promptPresets (onAfterDelete value s) = (own_promptPresets s)(value := None)"
  "promptPreset (onAfterDelete value s) = promptPreset s"
  by (simp_all add: onAfterDelete_def)






end
